theory Spec2Isabelle
  imports Complex_Main
begin

section \<open>Data model\<close>

text \<open>
  The solver of \<^verbatim>\<open>StudentSolution.cpp\<close> works on the objects declared in
  \<^verbatim>\<open>acequia_manager.h\<close>: regions, canals, water sources and the manager that owns them.
  The C++ \<^verbatim>\<open>double\<close> is idealised as \<open>real\<close>: the statements below are about exact
  arithmetic, not about IEEE rounding, except in the section on binary64 arithmetic near
  the end, which repeats the loops of one hour with rounding.

  The manager enumerates its regions and its canals (\<^verbatim>\<open>getRegions\<close>, \<^verbatim>\<open>getCanals\<close>); a
  \<^verbatim>\<open>Region*\<close> or \<^verbatim>\<open>Canal*\<close> is modelled as the position of the object in that enumeration.
  A water source is reached only through the pointer a canal holds, so water sources live
  in a store addressed by that pointer; \<open>None\<close> is the null pointer.
\<close>

record WaterSource =
  ws_waterLevel :: real

record Region =
  waterLevel :: real
  waterNeed :: real
  waterCapacity :: real

record Canal =
  sourceRegion :: nat
  destinationRegion :: nat
  waterSource :: "nat option"
  isOpen :: bool
  flowRate :: real

record AcequiaManager =
  regions :: "Region list"
  canals :: "Canal list"
  sources :: "nat \<Rightarrow> WaterSource"
  hour :: int
  SimulationMax :: int

text \<open>Modelled from the spec: \<^verbatim>\<open>Region::updateWaterLevel\<close> is declared in
  \<^verbatim>\<open>acequia_manager.h\<close>, which is not among the sources. The spec (section 4.3, step 3c)
  says a transfer decreases the donor's level by the amount and increases the target's
  level by the amount, so the method adds its argument to the level.\<close>

definition updateWaterLevel :: "real \<Rightarrow> Region \<Rightarrow> Region" where
  "updateWaterLevel change r = r\<lparr>waterLevel := waterLevel r + change\<rparr>"

text \<open>Modelled from the spec: \<^verbatim>\<open>WaterSource::updateWaterLevel\<close>, missing in the same way;
  the spec says a transfer decreases the water source's level by the amount.\<close>

definition ws_updateWaterLevel :: "real \<Rightarrow> WaterSource \<Rightarrow> WaterSource" where
  "ws_updateWaterLevel change w = w\<lparr>ws_waterLevel := ws_waterLevel w + change\<rparr>"

text \<open>Modelled from the spec: \<^verbatim>\<open>Canal::toggleOpen\<close> and \<^verbatim>\<open>Canal::setFlowRate\<close>, missing in
  the same way; the spec says they mark the canal open or closed and set its flow rate.\<close>

definition toggleOpen :: "bool \<Rightarrow> Canal \<Rightarrow> Canal" where
  "toggleOpen b c = c\<lparr>isOpen := b\<rparr>"

definition setFlowRate :: "real \<Rightarrow> Canal \<Rightarrow> Canal" where
  "setFlowRate rate c = c\<lparr>flowRate := rate\<rparr>"

text \<open>Modelled from the spec: \<^verbatim>\<open>AcequiaManager::nexthour\<close>, missing in the same way; the
  spec (section 6) calls it the operation that advances the driver's hour counter by one
  hour. The predicate \<^verbatim>\<open>AcequiaManager::solved\<close> is missing too; the spec only says it is a
  side-effect free predicate of the driver, so it is a parameter \<open>solved\<close> of the model.\<close>

definition nexthour :: "AcequiaManager \<Rightarrow> AcequiaManager" where
  "nexthour m = m\<lparr>hour := hour m + 1\<rparr>"

section \<open>Constants and helpers of the anonymous namespace\<close>

definition kEpsilon :: real where
  "kEpsilon = 1 / 1000"

definition kSafetyMargin :: real where
  "kSafetyMargin = 1 / 10"

definition kMaxLoops :: int where
  "kMaxLoops = 1000"

definition safeSurplus :: "Region \<Rightarrow> real" where
  "safeSurplus r =
     (let extra = waterLevel r - waterNeed r;
          buffer = kSafetyMargin * waterCapacity r
      in max 0 (extra - buffer))"

definition getDeficit :: "Region \<Rightarrow> real" where
  "getDeficit r = max 0 (waterNeed r - waterLevel r)"

record Need =
  region :: nat
  amount :: real

text \<open>\<^verbatim>\<open>Need::operator<\<close>.\<close>

definition need_less :: "Need \<Rightarrow> Need \<Rightarrow> bool" where
  "need_less a b = (amount a < amount b)"

subsection \<open>The priority queue of needs\<close>

text \<open>
  \<^verbatim>\<open>std::priority_queue<Need>\<close> is kept as the list of its elements in insertion order.
  \<open>top\<close> is a greatest element under \<open>need_less\<close>; the C++ standard leaves open which of
  several equal keys is on top, and the model takes the one inserted first. \<open>pop\<close> removes
  that element.
\<close>

fun top_from :: "Need \<Rightarrow> Need list \<Rightarrow> Need" where
  "top_from best [] = best"
| "top_from best (n # ns) = top_from (if need_less best n then n else best) ns"

definition pq_top :: "Need list \<Rightarrow> Need" where
  "pq_top q = top_from (hd q) (tl q)"

definition pq_pop :: "Need list \<Rightarrow> Need list" where
  "pq_pop q = remove1 (pq_top q) q"

definition pq_push :: "Need \<Rightarrow> Need list \<Rightarrow> Need list" where
  "pq_push n q = q @ [n]"

subsection \<open>The canal lookup\<close>

text \<open>
  Lines 57-60: \<open>canalMap[src][dst]\<close> is the vector of the canals from \<open>src\<close> to \<open>dst\<close>, in
  the order of \<^verbatim>\<open>getCanals\<close>. A key that was never inserted is the empty list.
\<close>

definition canalMap_insert :: "Canal list \<Rightarrow> (nat \<Rightarrow> nat \<Rightarrow> nat list) \<Rightarrow> nat \<Rightarrow> (nat \<Rightarrow> nat \<Rightarrow> nat list)" where
  "canalMap_insert cs cm c =
     (let s = sourceRegion (cs ! c); d = destinationRegion (cs ! c)
      in cm(s := (cm s)(d := cm s d @ [c])))"

definition buildCanalMap :: "Canal list \<Rightarrow> nat \<Rightarrow> nat \<Rightarrow> nat list" where
  "buildCanalMap cs = foldl (canalMap_insert cs) (\<lambda>s d. []) [0..<length cs]"

section \<open>One transfer\<close>

text \<open>
  Every executed transfer is recorded with the state before and after it; the record is
  a log only and is never read by the solver.
\<close>

record Transfer =
  t_canal :: nat
  t_source :: nat
  t_donor :: nat
  t_target :: nat
  t_deficit :: real
  t_avail :: real
  t_amount :: real
  t_before :: AcequiaManager
  t_after :: AcequiaManager

text \<open>Lines 114-118.\<close>

definition executeTransfer :: "nat \<Rightarrow> nat \<Rightarrow> nat \<Rightarrow> nat \<Rightarrow> real \<Rightarrow> AcequiaManager \<Rightarrow> AcequiaManager" where
  "executeTransfer canal ws src target xfer m =
     (let m1 = m\<lparr>canals := (canals m)[canal := toggleOpen True (canals m ! canal)]\<rparr>;
          m2 = m1\<lparr>canals := (canals m1)[canal := setFlowRate (xfer / 3600) (canals m1 ! canal)]\<rparr>;
          m3 = m2\<lparr>sources := (sources m2)(ws := ws_updateWaterLevel (- xfer) (sources m2 ws))\<rparr>;
          m4 = m3\<lparr>regions := (regions m3)[src := updateWaterLevel (- xfer) (regions m3 ! src)]\<rparr>
      in m4\<lparr>regions := (regions m4)[target := updateWaterLevel xfer (regions m4 ! target)]\<rparr>)"

text \<open>Lines 105-111: the water source of the canal and the amount to move, or \<open>None\<close> when
  the canal is skipped (\<^verbatim>\<open>continue\<close>).\<close>

definition canalXfer :: "AcequiaManager \<Rightarrow> nat \<Rightarrow> real \<Rightarrow> real \<Rightarrow> nat \<Rightarrow> (nat \<times> real) option" where
  "canalXfer m target deficit avail canal =
     (case waterSource (canals m ! canal) of
        None \<Rightarrow> None
      | Some ws \<Rightarrow>
          if ws_waterLevel (sources m ws) \<le> kEpsilon then None
          else
            let space = waterCapacity (regions m ! target) - waterLevel (regions m ! target);
                xfer = min deficit (min avail (min (ws_waterLevel (sources m ws)) space))
            in if xfer \<le> kEpsilon then None else Some (ws, xfer))"

section \<open>The scan of the donors for one need\<close>

record Scan =
  sc_manager :: AcequiaManager
  sc_deficit :: real
  sc_didTransfer :: bool
  sc_log :: "Transfer list"

text \<open>Lines 113-121.\<close>

definition scanTransfer :: "nat \<Rightarrow> nat \<Rightarrow> real \<Rightarrow> nat \<Rightarrow> nat \<Rightarrow> real \<Rightarrow> Scan \<Rightarrow> Scan" where
  "scanTransfer src target avail canal ws xfer s =
     (let m' = executeTransfer canal ws src target xfer (sc_manager s)
      in \<lparr>sc_manager = m',
          sc_deficit = sc_deficit s - xfer,
          sc_didTransfer = True,
          sc_log = sc_log s @
            [\<lparr>t_canal = canal, t_source = ws, t_donor = src, t_target = target,
              t_deficit = sc_deficit s, t_avail = avail, t_amount = xfer,
              t_before = sc_manager s, t_after = m'\<rparr>]\<rparr>)"

text \<open>Lines 104-123: the canals from \<open>src\<close> to \<open>target\<close>, in order; \<open>avail\<close> is the value
  computed at line 97, before the loop.\<close>

fun canalLoop :: "nat \<Rightarrow> nat \<Rightarrow> real \<Rightarrow> nat list \<Rightarrow> Scan \<Rightarrow> Scan" where
  "canalLoop src target avail [] s = s"
| "canalLoop src target avail (canal # rest) s =
     (case canalXfer (sc_manager s) target (sc_deficit s) avail canal of
        None \<Rightarrow> canalLoop src target avail rest s
      | Some (ws, xfer) \<Rightarrow>
          let s' = scanTransfer src target avail canal ws xfer s
          in if sc_deficit s' \<le> kEpsilon then s' else canalLoop src target avail rest s')"

text \<open>Lines 96-125.\<close>

fun donorLoop :: "(nat \<Rightarrow> nat \<Rightarrow> nat list) \<Rightarrow> nat \<Rightarrow> nat list \<Rightarrow> Scan \<Rightarrow> Scan" where
  "donorLoop cm target [] s = s"
| "donorLoop cm target (src # rest) s =
     (let avail = safeSurplus (regions (sc_manager s) ! src)
      in if avail \<le> kEpsilon then donorLoop cm target rest s
         else if cm src target = [] then donorLoop cm target rest s
         else
           let s' = canalLoop src target avail (cm src target) s
           in if sc_deficit s' \<le> kEpsilon then s' else donorLoop cm target rest s')"

section \<open>One hour\<close>

record Iteration =
  it_queue :: "Need list"
  it_popped :: Need
  it_transfers :: "Transfer list"

record Hour =
  h_needs :: "Need list"
  h_manager :: AcequiaManager
  h_didTransfer :: bool
  h_loops :: int
  h_iterations :: "Iteration list"

text \<open>Lines 90-130, the body of the greedy loop. The iteration is logged with the queue
  it found, the need it popped and the transfers it executed.\<close>

definition hourBody :: "(nat \<Rightarrow> nat \<Rightarrow> nat list) \<Rightarrow> nat list \<Rightarrow> Hour \<Rightarrow> Hour" where
  "hourBody cm donors h =
     (let curr = pq_top (h_needs h);
          q = pq_pop (h_needs h);
          target = region curr;
          s = donorLoop cm target donors
                \<lparr>sc_manager = h_manager h, sc_deficit = amount curr,
                 sc_didTransfer = h_didTransfer h, sc_log = []\<rparr>;
          q' = (if sc_deficit s > kEpsilon
                then pq_push \<lparr>region = target, amount = sc_deficit s\<rparr> q else q)
      in h\<lparr>h_needs := q', h_manager := sc_manager s, h_didTransfer := sc_didTransfer s,
           h_iterations := h_iterations h @
             [\<lparr>it_queue = h_needs h, it_popped = curr, it_transfers = sc_log s\<rparr>]\<rparr>)"

lemma hourBody_loops [simp]: "h_loops (hourBody cm donors h) = h_loops h"
  by (simp add: hourBody_def Let_def)

text \<open>Line 89: \<^verbatim>\<open>while (!needs.empty() && !donors.empty() && loops++ < kMaxLoops)\<close>. The
  increment is evaluated whenever the first two tests pass, also when the third fails.\<close>

function hourLoop :: "(nat \<Rightarrow> nat \<Rightarrow> nat list) \<Rightarrow> nat list \<Rightarrow> Hour \<Rightarrow> Hour" where
  "hourLoop cm donors h =
     (if h_needs h \<noteq> [] \<and> donors \<noteq> [] then
        (if h_loops h < kMaxLoops
         then hourLoop cm donors (hourBody cm donors (h\<lparr>h_loops := h_loops h + 1\<rparr>))
         else h\<lparr>h_loops := h_loops h + 1\<rparr>)
      else h)"
  by pat_completeness auto
termination
  by (relation "measure (\<lambda>(cm, donors, h). nat (kMaxLoops - h_loops h))") auto

text \<open>Lines 67-70.\<close>

definition resetCanal :: "Canal \<Rightarrow> Canal" where
  "resetCanal c = setFlowRate 0 (if isOpen c then toggleOpen False c else c)"

text \<open>Lines 73-83: the regions in enumeration order, split into the queue of needs and
  the list of donors.\<close>

fun gather :: "Region list \<Rightarrow> nat list \<Rightarrow> Need list \<times> nat list \<Rightarrow> Need list \<times> nat list" where
  "gather rs [] acc = acc"
| "gather rs (r # rest) (needs, donors) =
     (let d = getDeficit (rs ! r)
      in if d > kEpsilon then gather rs rest (pq_push \<lparr>region = r, amount = d\<rparr> needs, donors)
         else
           let s = safeSurplus (rs ! r)
           in if s > kEpsilon then gather rs rest (needs, donors @ [r])
              else gather rs rest (needs, donors))"

definition hourStart :: "AcequiaManager \<Rightarrow> AcequiaManager" where
  "hourStart m = m\<lparr>canals := map resetCanal (canals m)\<rparr>"

definition hourNeeds :: "AcequiaManager \<Rightarrow> Need list" where
  "hourNeeds m = fst (gather (regions m) [0..<length (regions m)] ([], []))"

definition hourDonors :: "AcequiaManager \<Rightarrow> nat list" where
  "hourDonors m = snd (gather (regions m) [0..<length (regions m)] ([], []))"

text \<open>Lines 64-131: one pass of the outer loop up to the test of \<^verbatim>\<open>didTransfer\<close>.\<close>

definition runHour :: "(nat \<Rightarrow> nat \<Rightarrow> nat list) \<Rightarrow> AcequiaManager \<Rightarrow> Hour" where
  "runHour cm m =
     (let m1 = hourStart m
      in hourLoop cm (hourDonors m1)
           \<lparr>h_needs = hourNeeds m1, h_manager = m1, h_didTransfer = False,
            h_loops = 0, h_iterations = []\<rparr>)"

declare hourLoop.simps [simp del]

section \<open>What one hour leaves unchanged\<close>

lemma map_update_same: "(i < length xs \<Longrightarrow> f y = f (xs ! i)) \<Longrightarrow> map f (xs[i := y]) = map f xs"
  by (induction xs arbitrary: i) (auto split: nat.splits)

definition frame :: "AcequiaManager \<Rightarrow> AcequiaManager \<Rightarrow> bool" where
  "frame m m' \<longleftrightarrow>
     hour m' = hour m \<and> SimulationMax m' = SimulationMax m \<and>
     map waterNeed (regions m') = map waterNeed (regions m) \<and>
     map waterCapacity (regions m') = map waterCapacity (regions m) \<and>
     map sourceRegion (canals m') = map sourceRegion (canals m) \<and>
     map destinationRegion (canals m') = map destinationRegion (canals m) \<and>
     map waterSource (canals m') = map waterSource (canals m)"

lemma frame_refl [simp]: "frame m m"
  by (simp add: frame_def)

lemma frame_trans: "frame a b \<Longrightarrow> frame b c \<Longrightarrow> frame a c"
  by (simp add: frame_def)

lemma frame_executeTransfer: "frame m (executeTransfer canal ws src target xfer m)"
  by (simp add: frame_def executeTransfer_def Let_def map_update_same updateWaterLevel_def toggleOpen_def setFlowRate_def)

lemma frame_length:
  assumes "frame m m'"
  shows "length (regions m') = length (regions m)" and "length (canals m') = length (canals m)"
  using assms map_eq_imp_length_eq unfolding frame_def by blast+


lemma frame_scanTransfer: "frame (sc_manager s) (sc_manager (scanTransfer src target avail canal ws xfer s))"
  by (simp add: scanTransfer_def Let_def frame_executeTransfer)

lemma frame_canalLoop: "frame (sc_manager s) (sc_manager (canalLoop src target avail cs s))"
proof (induction cs arbitrary: s)
  case Nil
  show ?case by simp
next
  case (Cons c cs)
  show ?case
  proof (cases "canalXfer (sc_manager s) target (sc_deficit s) avail c")
    case None
    then show ?thesis using Cons.IH [of s] by simp
  next
    case (Some p)
    obtain ws xfer where p: "p = (ws, xfer)" by (cases p)
    let ?s' = "scanTransfer src target avail c ws xfer s"
    have "frame (sc_manager s) (sc_manager ?s')" by (rule frame_scanTransfer)
    moreover have "frame (sc_manager ?s') (sc_manager (canalLoop src target avail cs ?s'))"
      by (rule Cons.IH)
    ultimately show ?thesis
      using Some p by (auto simp: Let_def intro: frame_trans)
  qed
qed

lemma frame_donorLoop: "frame (sc_manager s) (sc_manager (donorLoop cm target ds s))"
proof (induction ds arbitrary: s)
  case Nil
  show ?case by simp
next
  case (Cons d ds)
  let ?s' = "canalLoop d target (safeSurplus (regions (sc_manager s) ! d)) (cm d target) s"
  have "frame (sc_manager s) (sc_manager ?s')" by (rule frame_canalLoop)
  moreover have "frame (sc_manager ?s') (sc_manager (donorLoop cm target ds ?s'))"
    by (rule Cons.IH)
  ultimately show ?case
    using Cons.IH [of s] by (auto simp: Let_def intro: frame_trans)
qed

lemma frame_hourBody: "frame (h_manager h) (h_manager (hourBody cm donors h))"
  using frame_donorLoop [of "\<lparr>sc_manager = h_manager h, sc_deficit = amount (pq_top (h_needs h)),
      sc_didTransfer = h_didTransfer h, sc_log = []\<rparr>" cm "region (pq_top (h_needs h))" donors]
  by (simp add: hourBody_def Let_def)

lemma frame_hourLoop: "frame (h_manager h) (h_manager (hourLoop cm donors h))"
proof (induction cm donors h rule: hourLoop.induct)
  case (1 cm donors h)
  show ?case
  proof (cases "h_needs h \<noteq> [] \<and> donors \<noteq> [] \<and> h_loops h < kMaxLoops")
    case True
    let ?h1 = "h\<lparr>h_loops := h_loops h + 1\<rparr>"
    have "frame (h_manager ?h1) (h_manager (hourBody cm donors ?h1))" by (rule frame_hourBody)
    moreover have "frame (h_manager (hourBody cm donors ?h1))
        (h_manager (hourLoop cm donors (hourBody cm donors ?h1)))"
      using True by (intro "1.IH") auto
    ultimately have "frame (h_manager ?h1) (h_manager (hourLoop cm donors (hourBody cm donors ?h1)))"
      by (rule frame_trans)
    then show ?thesis using True by (subst hourLoop.simps) simp
  next
    case False
    then show ?thesis by (subst hourLoop.simps) auto
  qed
qed

lemma frame_hourStart: "frame m (hourStart m)"
  by (simp add: frame_def hourStart_def resetCanal_def setFlowRate_def toggleOpen_def)

lemma frame_runHour: "frame m (h_manager (runHour cm m))"
  using frame_hourLoop [of "\<lparr>h_needs = hourNeeds (hourStart m), h_manager = hourStart m,
      h_didTransfer = False, h_loops = 0, h_iterations = []\<rparr>" cm "hourDonors (hourStart m)"]
    frame_hourStart [of m]
  by (auto simp: runHour_def Let_def intro: frame_trans)

lemma hour_runHour [simp]: "hour (h_manager (runHour cm m)) = hour m"
  using frame_runHour [of m cm] by (simp add: frame_def)

section \<open>The scheduler\<close>

record Run =
  r_manager :: AcequiaManager
  r_hours :: "Hour list"

text \<open>Lines 63-137: the outer loop. Every hour that was run is logged.\<close>

function mainLoop :: "(AcequiaManager \<Rightarrow> bool) \<Rightarrow> int \<Rightarrow> (nat \<Rightarrow> nat \<Rightarrow> nat list) \<Rightarrow> Run \<Rightarrow> Run" where
  "mainLoop solved maxHours cm r =
     (if \<not> solved (r_manager r) \<and> hour (r_manager r) < maxHours then
        (let h = runHour cm (r_manager r)
         in if \<not> h_didTransfer h
            then \<lparr>r_manager = h_manager h, r_hours = r_hours r @ [h]\<rparr>
            else mainLoop solved maxHours cm
                   \<lparr>r_manager = nexthour (h_manager h), r_hours = r_hours r @ [h]\<rparr>)
      else r)"
  by pat_completeness auto
termination
  by (relation "measure (\<lambda>(solved, maxHours, cm, r). nat (maxHours - hour (r_manager r)))")
    (auto simp: nexthour_def)

declare mainLoop.simps [simp del]

text \<open>Lines 52-138.\<close>

definition solveProblems :: "(AcequiaManager \<Rightarrow> bool) \<Rightarrow> AcequiaManager \<Rightarrow> Run" where
  "solveProblems solved m =
     mainLoop solved (SimulationMax m) (buildCanalMap (canals m)) \<lparr>r_manager = m, r_hours = []\<rparr>"

section \<open>What a run leaves unchanged\<close>

definition static :: "AcequiaManager \<Rightarrow> AcequiaManager \<Rightarrow> bool" where
  "static m m' \<longleftrightarrow>
     SimulationMax m' = SimulationMax m \<and>
     map waterNeed (regions m') = map waterNeed (regions m) \<and>
     map waterCapacity (regions m') = map waterCapacity (regions m) \<and>
     map sourceRegion (canals m') = map sourceRegion (canals m) \<and>
     map destinationRegion (canals m') = map destinationRegion (canals m) \<and>
     map waterSource (canals m') = map waterSource (canals m)"

lemma static_refl [simp]: "static m m"
  by (simp add: static_def)

lemma static_trans: "static a b \<Longrightarrow> static b c \<Longrightarrow> static a c"
  by (simp add: static_def)

lemma frame_static: "frame m m' \<Longrightarrow> static m m'"
  by (simp add: frame_def static_def)

lemma static_nexthour: "static m (nexthour m)"
  by (simp add: static_def nexthour_def)

lemma static_length:
  assumes "static m m'"
  shows "length (regions m') = length (regions m)" and "length (canals m') = length (canals m)"
  using assms map_eq_imp_length_eq unfolding static_def by blast+

lemma static_hour_step: "static m0 m \<Longrightarrow> static m0 (nexthour (h_manager (runHour cm m)))"
  by (meson frame_runHour frame_static static_nexthour static_trans)

text \<open>The induction over the outer loop, once for all properties: \<open>P\<close> holds of the state
  every hour starts from, \<open>Q\<close> of every hour that was run.\<close>

lemma mainLoop_rule:
  assumes "P (r_manager r)" and "\<forall>h\<in>set (r_hours r). Q h"
    and step: "\<And>m. P m \<Longrightarrow>
      Q (runHour cm m) \<and> P (h_manager (runHour cm m)) \<and> P (nexthour (h_manager (runHour cm m)))"
  shows "P (r_manager (mainLoop solved mx cm r)) \<and>
         (\<forall>h\<in>set (r_hours (mainLoop solved mx cm r)). Q h)"
  using assms
proof (induction solved mx cm r rule: mainLoop.induct)
  case (1 solved mx cm r)
  note step = "1.prems"(3)
  show ?case
  proof (cases "\<not> solved (r_manager r) \<and> hour (r_manager r) < mx")
    case False
    then show ?thesis using "1.prems"(1,2) by (subst mainLoop.simps, subst (2) mainLoop.simps) auto
  next
    case True
    let ?h = "runHour cm (r_manager r)"
    note st = step [OF "1.prems"(1)]
    show ?thesis
    proof (cases "h_didTransfer ?h")
      case False
      then show ?thesis using True st "1.prems"(1,2)
        by (subst mainLoop.simps, subst (2) mainLoop.simps) (auto simp: Let_def)
    next
      case dt: True
      let ?r' = "\<lparr>r_manager = nexthour (h_manager ?h), r_hours = r_hours r @ [?h]\<rparr>"
      have "P (r_manager (mainLoop solved mx cm ?r')) \<and>
         (\<forall>h\<in>set (r_hours (mainLoop solved mx cm ?r')). Q h)"
        using True dt st "1.prems"(1,2) step by (intro "1.IH" [OF True refl]) auto
      moreover have "mainLoop solved mx cm r = mainLoop solved mx cm ?r'"
        using True dt by (subst mainLoop.simps) (simp add: Let_def)
      ultimately show ?thesis by simp
    qed
  qed
qed

lemma solveProblems_static: "static m (r_manager (solveProblems solved m))"
  unfolding solveProblems_def
  using mainLoop_rule [of "static m" "\<lparr>r_manager = m, r_hours = []\<rparr>" "\<lambda>h. True"
      "buildCanalMap (canals m)" solved "SimulationMax m"]
  by (simp add: static_hour_step) (meson frame_runHour frame_static static_trans)

text \<open>
  Claim C10. Across a whole invocation of \<open>solveProblems\<close>, whatever the driver's
  \<open>solved\<close> predicate is, no region or canal is created or destroyed, every region keeps
  its need and its capacity, every canal keeps its source region, its destination region
  and its water-source pointer, and the hour budget is not touched. What the run may
  change is what is left: the water levels of regions and water sources, the open flag
  and the flow rate of canals, and the hour counter.
\<close>

theorem solveProblems_frame:
  "SimulationMax (r_manager (solveProblems solved m)) = SimulationMax m \<and>
   map waterNeed (regions (r_manager (solveProblems solved m))) = map waterNeed (regions m) \<and>
   map waterCapacity (regions (r_manager (solveProblems solved m))) = map waterCapacity (regions m) \<and>
   map sourceRegion (canals (r_manager (solveProblems solved m))) = map sourceRegion (canals m) \<and>
   map destinationRegion (canals (r_manager (solveProblems solved m))) = map destinationRegion (canals m) \<and>
   map waterSource (canals (r_manager (solveProblems solved m))) = map waterSource (canals m)"
  using solveProblems_static [of m solved] by (simp add: static_def)

section \<open>The iteration cap\<close>

lemma hourBody_iterations:
  "length (h_iterations (hourBody cm donors h)) = Suc (length (h_iterations h))"
  by (simp add: hourBody_def Let_def)

lemma hourLoop_iterations:
  "int (length (h_iterations (hourLoop cm donors h))) \<le>
     int (length (h_iterations h)) + max 0 (kMaxLoops - h_loops h)"
proof (induction cm donors h rule: hourLoop.induct)
  case (1 cm donors h)
  show ?case
  proof (cases "h_needs h \<noteq> [] \<and> donors \<noteq> [] \<and> h_loops h < kMaxLoops")
    case True
    let ?h1 = "hourBody cm donors (h\<lparr>h_loops := h_loops h + 1\<rparr>)"
    have "int (length (h_iterations (hourLoop cm donors ?h1))) \<le>
        int (length (h_iterations ?h1)) + max 0 (kMaxLoops - h_loops ?h1)"
      using True by (intro "1.IH") auto
    moreover have "hourLoop cm donors h = hourLoop cm donors ?h1"
      using True by (subst hourLoop.simps) simp
    ultimately show ?thesis using True by (simp add: hourBody_iterations)
  next
    case False
    then show ?thesis by (subst hourLoop.simps) auto
  qed
qed

text \<open>
  Claim C6. The greedy loop of an hour is a total function of the model (its definition
  carries a termination proof: the distance of \<open>loops\<close> to the cap decreases), and for
  every canal lookup and every state of the manager it runs its body at most 1000 times.
\<close>

theorem runHour_iteration_cap:
  "length (h_iterations (runHour cm m)) \<le> 1000 \<and> kMaxLoops = 1000"
  using hourLoop_iterations [of cm "hourDonors (hourStart m)"
      "\<lparr>h_needs = hourNeeds (hourStart m), h_manager = hourStart m,
        h_didTransfer = False, h_loops = 0, h_iterations = []\<rparr>"]
  by (simp add: runHour_def Let_def kMaxLoops_def)

section \<open>Hours without a transfer\<close>

definition hourTransfers :: "Hour \<Rightarrow> Transfer list" where
  "hourTransfers h = concat (map it_transfers (h_iterations h))"

lemma canalLoop_didTransfer:
  "sc_didTransfer s = (b \<or> sc_log s \<noteq> []) \<Longrightarrow>
   sc_didTransfer (canalLoop src target avail cs s) =
     (b \<or> sc_log (canalLoop src target avail cs s) \<noteq> [])"
proof (induction cs arbitrary: s)
  case Nil
  then show ?case by simp
next
  case (Cons c cs)
  show ?case
  proof (cases "canalXfer (sc_manager s) target (sc_deficit s) avail c")
    case None
    then show ?thesis using Cons by simp
  next
    case (Some p)
    obtain ws xfer where p: "p = (ws, xfer)" by (cases p)
    let ?s' = "scanTransfer src target avail c ws xfer s"
    have s': "sc_didTransfer ?s' = (b \<or> sc_log ?s' \<noteq> [])"
      by (simp add: scanTransfer_def Let_def)
    show ?thesis
      using Some p s' Cons.IH [OF s'] by (simp add: Let_def)
  qed
qed

lemma donorLoop_didTransfer:
  "sc_didTransfer s = (b \<or> sc_log s \<noteq> []) \<Longrightarrow>
   sc_didTransfer (donorLoop cm target ds s) = (b \<or> sc_log (donorLoop cm target ds s) \<noteq> [])"
proof (induction ds arbitrary: s)
  case Nil
  then show ?case by simp
next
  case (Cons d ds)
  let ?s' = "canalLoop d target (safeSurplus (regions (sc_manager s) ! d)) (cm d target) s"
  have s': "sc_didTransfer ?s' = (b \<or> sc_log ?s' \<noteq> [])"
    using Cons.prems by (rule canalLoop_didTransfer)
  show ?case
    using Cons.IH [OF Cons.prems] Cons.IH [OF s'] s' by (simp add: Let_def)
qed

lemma hourBody_didTransfer:
  assumes "h_didTransfer h = (hourTransfers h \<noteq> [])"
  shows "h_didTransfer (hourBody cm donors h) = (hourTransfers (hourBody cm donors h) \<noteq> [])"
  using donorLoop_didTransfer [of "\<lparr>sc_manager = h_manager h, sc_deficit = amount (pq_top (h_needs h)),
      sc_didTransfer = h_didTransfer h, sc_log = []\<rparr>" "h_didTransfer h" cm
      "region (pq_top (h_needs h))" donors] assms
  by (auto simp: hourBody_def Let_def hourTransfers_def)

lemma hourLoop_didTransfer:
  "h_didTransfer h = (hourTransfers h \<noteq> []) \<Longrightarrow>
   h_didTransfer (hourLoop cm donors h) = (hourTransfers (hourLoop cm donors h) \<noteq> [])"
proof (induction cm donors h rule: hourLoop.induct)
  case (1 cm donors h)
  show ?case
  proof (cases "h_needs h \<noteq> [] \<and> donors \<noteq> [] \<and> h_loops h < kMaxLoops")
    case True
    let ?h0 = "h\<lparr>h_loops := h_loops h + 1\<rparr>"
    let ?h1 = "hourBody cm donors ?h0"
    have "h_didTransfer ?h0 = (hourTransfers ?h0 \<noteq> [])"
      using "1.prems" by (simp add: hourTransfers_def)
    then have "h_didTransfer ?h1 = (hourTransfers ?h1 \<noteq> [])"
      by (rule hourBody_didTransfer)
    then have "h_didTransfer (hourLoop cm donors ?h1) = (hourTransfers (hourLoop cm donors ?h1) \<noteq> [])"
      using True by (intro "1.IH") auto
    moreover have "hourLoop cm donors h = hourLoop cm donors ?h1"
      using True by (subst hourLoop.simps) simp
    ultimately show ?thesis by simp
  next
    case False
    then show ?thesis using "1.prems" by (subst hourLoop.simps, subst (2) hourLoop.simps) (auto simp: hourTransfers_def)
  qed
qed

lemma runHour_didTransfer: "h_didTransfer (runHour cm m) = (hourTransfers (runHour cm m) \<noteq> [])"
  unfolding runHour_def Let_def
  by (rule hourLoop_didTransfer) (simp add: hourTransfers_def)

lemma mainLoop_hours:
  assumes "\<forall>h\<in>set (r_hours r). h_didTransfer h"
    and "hour (r_manager r) = k + int (length (r_hours r))"
  shows "(\<forall>h\<in>set (r_hours (mainLoop solved mx cm r)). h_didTransfer h) \<and>
           hour (r_manager (mainLoop solved mx cm r)) =
             k + int (length (r_hours (mainLoop solved mx cm r)))
         \<or> r_hours (mainLoop solved mx cm r) \<noteq> [] \<and>
           \<not> h_didTransfer (last (r_hours (mainLoop solved mx cm r))) \<and>
           (\<forall>h\<in>set (butlast (r_hours (mainLoop solved mx cm r))). h_didTransfer h) \<and>
           r_manager (mainLoop solved mx cm r) = h_manager (last (r_hours (mainLoop solved mx cm r))) \<and>
           hour (r_manager (mainLoop solved mx cm r)) + 1 =
             k + int (length (r_hours (mainLoop solved mx cm r)))"
  using assms
proof (induction solved mx cm r rule: mainLoop.induct)
  case (1 solved mx cm r)
  show ?case
  proof (cases "\<not> solved (r_manager r) \<and> hour (r_manager r) < mx")
    case False
    then have "mainLoop solved mx cm r = r" by (subst mainLoop.simps) auto
    then show ?thesis using "1.prems" by simp
  next
    case True
    let ?h = "runHour cm (r_manager r)"
    show ?thesis
    proof (cases "h_didTransfer ?h")
      case False
      then have "mainLoop solved mx cm r = \<lparr>r_manager = h_manager ?h, r_hours = r_hours r @ [?h]\<rparr>"
        using True by (subst mainLoop.simps) (simp add: Let_def)
      then show ?thesis using False "1.prems" by simp
    next
      case dt: True
      let ?r' = "\<lparr>r_manager = nexthour (h_manager ?h), r_hours = r_hours r @ [?h]\<rparr>"
      have eq: "mainLoop solved mx cm r = mainLoop solved mx cm ?r'"
        using True dt by (subst mainLoop.simps) (simp add: Let_def)
      have "\<forall>h\<in>set (r_hours ?r'). h_didTransfer h" using dt "1.prems" by simp
      moreover have "hour (r_manager ?r') = k + int (length (r_hours ?r'))"
        using "1.prems" by (simp add: nexthour_def)
      ultimately show ?thesis
        unfolding eq using True dt by (intro "1.IH" [OF True refl]) auto
    qed
  qed
qed

lemma solveProblems_hours_didTransfer:
  "\<forall>h\<in>set (r_hours (solveProblems solved m)). h_didTransfer h = (hourTransfers h \<noteq> [])"
  unfolding solveProblems_def
  using mainLoop_rule [of "\<lambda>m. True" "\<lparr>r_manager = m, r_hours = []\<rparr>"
      "\<lambda>h. h_didTransfer h = (hourTransfers h \<noteq> [])" "buildCanalMap (canals m)" solved "SimulationMax m"]
  by (simp add: runHour_didTransfer)

text \<open>
  Claim C7. If the \<open>i\<close>-th hour that a call of \<open>solveProblems\<close> runs executes no transfer,
  then it is the last hour the call runs, the call returns the state that hour ended in,
  and the hour counter stands where it stood during that hour: it was advanced once for
  each of the \<open>i\<close> hours before and not again.
\<close>

theorem no_transfer_stops:
  assumes "i < length (r_hours (solveProblems solved m))"
    and "hourTransfers (r_hours (solveProblems solved m) ! i) = []"
  shows "Suc i = length (r_hours (solveProblems solved m)) \<and>
         r_manager (solveProblems solved m) = h_manager (r_hours (solveProblems solved m) ! i) \<and>
         hour (r_manager (solveProblems solved m)) = hour m + int i"
proof -
  define hs where "hs = r_hours (solveProblems solved m)"
  define mf where "mf = r_manager (solveProblems solved m)"
  have i: "i < length hs" and none: "hourTransfers (hs ! i) = []"
    using assms by (simp_all add: hs_def)
  have "hs ! i \<in> set hs" using i by simp
  then have idle: "\<not> h_didTransfer (hs ! i)"
    using solveProblems_hours_didTransfer [of solved m] none by (simp add: hs_def)
  have "(\<forall>h\<in>set hs. h_didTransfer h) \<and> hour mf = hour m + int (length hs)
      \<or> hs \<noteq> [] \<and> \<not> h_didTransfer (last hs) \<and> (\<forall>h\<in>set (butlast hs). h_didTransfer h) \<and>
        mf = h_manager (last hs) \<and> hour mf + 1 = hour m + int (length hs)"
    unfolding hs_def mf_def solveProblems_def
    by (rule mainLoop_hours) simp_all
  then have ne: "hs \<noteq> []" and front: "\<forall>h\<in>set (butlast hs). h_didTransfer h"
    and mf: "mf = h_manager (last hs)" and hr: "hour mf + 1 = hour m + int (length hs)"
    using idle \<open>hs ! i \<in> set hs\<close> by auto
  have "\<not> i < length (butlast hs)"
  proof
    assume lt: "i < length (butlast hs)"
    then have "butlast hs ! i \<in> set (butlast hs)" by simp
    moreover have "butlast hs ! i = hs ! i" using lt by (simp add: nth_butlast)
    ultimately show False using front idle by simp
  qed
  then have last: "Suc i = length hs" using i by simp
  then have "length hs - 1 = i" by simp
  then have "last hs = hs ! i" using ne by (simp add: last_conv_nth)
  then show ?thesis
    using last mf hr unfolding hs_def mf_def by simp
qed

text \<open>An hour with a need and no donor: the loop body never runs.\<close>

definition idle_manager :: AcequiaManager where
  "idle_manager =
     \<lparr>regions = [\<lparr>waterLevel = 2, waterNeed = 10, waterCapacity = 20\<rparr>],
      canals = [],
      sources = (\<lambda>w. \<lparr>ws_waterLevel = 0\<rparr>),
      hour = 0, SimulationMax = 24\<rparr>"

theorem no_transfer_stops_witness:
  "0 < length (r_hours (solveProblems (\<lambda>m. False) idle_manager)) \<and>
   hourTransfers (r_hours (solveProblems (\<lambda>m. False) idle_manager) ! 0) = [] \<and>
   Suc 0 = length (r_hours (solveProblems (\<lambda>m. False) idle_manager)) \<and>
   r_manager (solveProblems (\<lambda>m. False) idle_manager) =
     h_manager (r_hours (solveProblems (\<lambda>m. False) idle_manager) ! 0) \<and>
   hour (r_manager (solveProblems (\<lambda>m. False) idle_manager)) = hour idle_manager + int 0"
proof -
  have a: "0 < length (r_hours (solveProblems (\<lambda>m. False) idle_manager))"
    by code_simp
  have b: "hourTransfers (r_hours (solveProblems (\<lambda>m. False) idle_manager) ! 0) = []"
    by code_simp
  show ?thesis
    using no_transfer_stops [OF a b] a b by blast
qed

section \<open>Executed transfers\<close>

text \<open>What the log says of a transfer: the canal passed the tests of lines 105-111 in the
  state before, with the amount that was moved, and the state after is the state before
  changed by lines 114-118.\<close>

definition valid_transfer :: "Transfer \<Rightarrow> bool" where
  "valid_transfer tr \<longleftrightarrow>
     canalXfer (t_before tr) (t_target tr) (t_deficit tr) (t_avail tr) (t_canal tr) =
       Some (t_source tr, t_amount tr) \<and>
     t_after tr =
       executeTransfer (t_canal tr) (t_source tr) (t_donor tr) (t_target tr) (t_amount tr) (t_before tr)"

text \<open>The induction over the loops of one scan, once for all properties: \<open>I\<close> is an
  invariant of the manager's state, \<open>P\<close> a property of every logged transfer.\<close>

lemma canalLoop_rule:
  assumes "I (sc_manager s)" and "\<forall>tr\<in>set (sc_log s). P tr"
    and step: "\<And>tr. I (t_before tr) \<Longrightarrow> valid_transfer tr \<Longrightarrow> t_target tr = target \<Longrightarrow>
      t_donor tr = src \<Longrightarrow> t_canal tr \<in> set cs \<Longrightarrow> t_avail tr = avail \<Longrightarrow> P tr \<and> I (t_after tr)"
  shows "I (sc_manager (canalLoop src target avail cs s)) \<and>
         (\<forall>tr\<in>set (sc_log (canalLoop src target avail cs s)). P tr)"
  using assms
proof (induction cs arbitrary: s)
  case Nil
  then show ?case by simp
next
  case (Cons c cs)
  have step': "P tr \<and> I (t_after tr)"
    if "I (t_before tr)" "valid_transfer tr" "t_target tr = target" "t_donor tr = src"
      "t_canal tr \<in> set cs" "t_avail tr = avail" for tr
    using that by (intro Cons.prems(3)) simp_all
  show ?case
  proof (cases "canalXfer (sc_manager s) target (sc_deficit s) avail c")
    case None
    then have eq: "canalLoop src target avail (c # cs) s = canalLoop src target avail cs s"
      by simp
    show ?thesis
      unfolding eq using Cons.prems(1,2) step' by (rule Cons.IH)
  next
    case (Some p)
    obtain ws xfer where p: "p = (ws, xfer)" by (cases p)
    let ?s' = "scanTransfer src target avail c ws xfer s"
    define tr where "tr = \<lparr>t_canal = c, t_source = ws, t_donor = src, t_target = target,
      t_deficit = sc_deficit s, t_avail = avail, t_amount = xfer,
      t_before = sc_manager s, t_after = sc_manager ?s'\<rparr>"
    have log: "sc_log ?s' = sc_log s @ [tr]" by (simp add: scanTransfer_def Let_def tr_def)
    have "I (t_before tr)" using Cons.prems(1) by (simp add: tr_def)
    moreover have "valid_transfer tr"
      using Some p by (simp add: valid_transfer_def scanTransfer_def Let_def tr_def)
    moreover have "t_target tr = target" "t_donor tr = src" "t_canal tr \<in> set (c # cs)"
      "t_avail tr = avail"
      by (simp_all add: tr_def)
    ultimately have "P tr \<and> I (t_after tr)" by (rule Cons.prems(3))
    moreover have "t_after tr = sc_manager ?s'" by (simp add: tr_def)
    ultimately have s': "I (sc_manager ?s')" "\<forall>tr\<in>set (sc_log ?s'). P tr"
      using Cons.prems(2) by (simp_all add: log)
    have eq: "canalLoop src target avail (c # cs) s =
        (if sc_deficit ?s' \<le> kEpsilon then ?s' else canalLoop src target avail cs ?s')"
      using Some p by (simp add: Let_def)
    have "I (sc_manager (canalLoop src target avail cs ?s')) \<and>
         (\<forall>tr\<in>set (sc_log (canalLoop src target avail cs ?s')). P tr)"
      using s' step' by (rule Cons.IH)
    then show ?thesis
      unfolding eq using s' by (cases "sc_deficit ?s' \<le> kEpsilon") simp_all
  qed
qed

lemma donorLoop_rule:
  assumes "I (sc_manager s)" and "\<forall>tr\<in>set (sc_log s). P tr"
    and step: "\<And>tr. I (t_before tr) \<Longrightarrow> valid_transfer tr \<Longrightarrow> t_target tr = target \<Longrightarrow>
      t_donor tr \<in> set ds \<Longrightarrow> t_canal tr \<in> set (cm (t_donor tr) target) \<Longrightarrow>
      kEpsilon < t_avail tr \<Longrightarrow> P tr \<and> I (t_after tr)"
  shows "I (sc_manager (donorLoop cm target ds s)) \<and>
         (\<forall>tr\<in>set (sc_log (donorLoop cm target ds s)). P tr)"
  using assms
proof (induction ds arbitrary: s)
  case Nil
  then show ?case by simp
next
  case (Cons d ds)
  have step': "P tr \<and> I (t_after tr)"
    if "I (t_before tr)" "valid_transfer tr" "t_target tr = target" "t_donor tr \<in> set ds"
      "t_canal tr \<in> set (cm (t_donor tr) target)" "kEpsilon < t_avail tr" for tr
    using that by (intro Cons.prems(3)) simp_all
  have skip: "I (sc_manager (donorLoop cm target ds s)) \<and>
      (\<forall>tr\<in>set (sc_log (donorLoop cm target ds s)). P tr)"
    using Cons.prems(1,2) step' by (rule Cons.IH)
  let ?avail = "safeSurplus (regions (sc_manager s) ! d)"
  show ?case
  proof (cases "?avail \<le> kEpsilon \<or> cm d target = []")
    case True
    then show ?thesis using skip by (auto simp: Let_def)
  next
    case False
    let ?s' = "canalLoop d target ?avail (cm d target) s"
    have "I (sc_manager ?s') \<and> (\<forall>tr\<in>set (sc_log ?s'). P tr)"
      using Cons.prems(1,2)
    proof (rule canalLoop_rule)
      fix tr
      assume "I (t_before tr)" "valid_transfer tr" "t_target tr = target" "t_donor tr = d"
        "t_canal tr \<in> set (cm d target)" "t_avail tr = ?avail"
      then show "P tr \<and> I (t_after tr)"
        using False by (intro Cons.prems(3)) simp_all
    qed
    then have s': "I (sc_manager ?s')" "\<forall>tr\<in>set (sc_log ?s'). P tr" by simp_all
    have "I (sc_manager (donorLoop cm target ds ?s')) \<and>
      (\<forall>tr\<in>set (sc_log (donorLoop cm target ds ?s')). P tr)"
      using s' step' by (rule Cons.IH)
    then show ?thesis
      using False s' by (simp add: Let_def)
  qed
qed

section \<open>The queue\<close>

lemma top_from_mem: "top_from best ns \<in> set (best # ns)"
  by (induction ns arbitrary: best) auto

lemma top_from_ge: "amount best \<le> amount (top_from best ns)"
proof (induction ns arbitrary: best)
  case Nil
  show ?case by simp
next
  case (Cons a ns)
  show ?case
    using Cons [of a] Cons [of best] by (auto simp: need_less_def)
qed

lemma top_from_max: "n \<in> set (best # ns) \<Longrightarrow> amount n \<le> amount (top_from best ns)"
proof (induction ns arbitrary: best)
  case Nil
  then show ?case by simp
next
  case (Cons a ns)
  consider "n = best" | "n = a" | "n \<in> set ns" using Cons.prems by auto
  then show ?case
  proof cases
    case 1
    then show ?thesis using top_from_ge [of best "a # ns"] by simp
  next
    case 2
    then show ?thesis
      using top_from_ge [of a ns] top_from_ge [of best ns] by (auto simp: need_less_def)
  next
    case 3
    then show ?thesis using Cons.IH [of a] Cons.IH [of best] by auto
  qed
qed

lemma pq_top_mem: "q \<noteq> [] \<Longrightarrow> pq_top q \<in> set q"
  using top_from_mem [of "hd q" "tl q"] by (cases q) (simp_all add: pq_top_def)

lemma pq_top_max: "n \<in> set q \<Longrightarrow> amount n \<le> amount (pq_top q)"
  using top_from_max [of n "hd q" "tl q"] by (cases q) (simp_all add: pq_top_def)

lemma pq_pop_subset: "set (pq_pop q) \<subseteq> set q"
  by (simp add: pq_pop_def set_remove1_subset)

section \<open>The loops of one hour\<close>

lemma hourTransfers_hourBody:
  "hourTransfers (hourBody cm donors h) =
     hourTransfers h @ sc_log (donorLoop cm (region (pq_top (h_needs h))) donors
       \<lparr>sc_manager = h_manager h, sc_deficit = amount (pq_top (h_needs h)),
        sc_didTransfer = h_didTransfer h, sc_log = []\<rparr>)"
  by (simp add: hourBody_def Let_def hourTransfers_def)

lemma hourBody_rule:
  assumes ne: "h_needs h \<noteq> []" and I: "I (h_manager h)" and P: "\<forall>tr\<in>set (hourTransfers h). P tr"
    and T: "region ` set (h_needs h) \<subseteq> T"
    and step: "\<And>tr. I (t_before tr) \<Longrightarrow> valid_transfer tr \<Longrightarrow> t_target tr \<in> T \<Longrightarrow>
      t_donor tr \<in> set donors \<Longrightarrow> t_canal tr \<in> set (cm (t_donor tr) (t_target tr)) \<Longrightarrow>
      kEpsilon < t_avail tr \<Longrightarrow> P tr \<and> I (t_after tr)"
  shows "I (h_manager (hourBody cm donors h)) \<and>
         (\<forall>tr\<in>set (hourTransfers (hourBody cm donors h)). P tr) \<and>
         region ` set (h_needs (hourBody cm donors h)) \<subseteq> T"
proof -
  let ?curr = "pq_top (h_needs h)"
  let ?init = "\<lparr>sc_manager = h_manager h, sc_deficit = amount ?curr,
        sc_didTransfer = h_didTransfer h, sc_log = []\<rparr>"
  let ?s = "donorLoop cm (region ?curr) donors ?init"
  have curr: "region ?curr \<in> T" using pq_top_mem [OF ne] T by blast
  have "I (sc_manager ?init)" "\<forall>tr\<in>set (sc_log ?init). P tr" using I by simp_all
  then have "I (sc_manager ?s) \<and> (\<forall>tr\<in>set (sc_log ?s). P tr)"
  proof (rule donorLoop_rule)
    fix tr
    assume "I (t_before tr)" "valid_transfer tr" "t_target tr = region ?curr"
      "t_donor tr \<in> set donors" "t_canal tr \<in> set (cm (t_donor tr) (region ?curr))"
      "kEpsilon < t_avail tr"
    then show "P tr \<and> I (t_after tr)"
      using curr by (intro step) simp_all
  qed
  moreover have "h_manager (hourBody cm donors h) = sc_manager ?s"
    by (simp add: hourBody_def Let_def)
  moreover have "region ` set (h_needs (hourBody cm donors h)) \<subseteq> T"
    using pq_pop_subset [of "h_needs h"] T curr
    by (auto simp: hourBody_def Let_def pq_push_def)
  ultimately show ?thesis
    using P by (auto simp: hourTransfers_hourBody)
qed

lemma hourLoop_rule:
  assumes "I (h_manager h)" and "\<forall>tr\<in>set (hourTransfers h). P tr"
    and "region ` set (h_needs h) \<subseteq> T"
    and "\<And>tr. I (t_before tr) \<Longrightarrow> valid_transfer tr \<Longrightarrow> t_target tr \<in> T \<Longrightarrow>
      t_donor tr \<in> set donors \<Longrightarrow> t_canal tr \<in> set (cm (t_donor tr) (t_target tr)) \<Longrightarrow>
      kEpsilon < t_avail tr \<Longrightarrow> P tr \<and> I (t_after tr)"
  shows "I (h_manager (hourLoop cm donors h)) \<and>
         (\<forall>tr\<in>set (hourTransfers (hourLoop cm donors h)). P tr)"
  using assms
proof (induction cm donors h rule: hourLoop.induct)
  case (1 cm donors h)
  have step: "P tr \<and> I (t_after tr)"
    if "I (t_before tr)" "valid_transfer tr" "t_target tr \<in> T" "t_donor tr \<in> set donors"
      "t_canal tr \<in> set (cm (t_donor tr) (t_target tr))" "kEpsilon < t_avail tr" for tr
    using that by (rule "1.prems"(4))
  show ?case
  proof (cases "h_needs h \<noteq> [] \<and> donors \<noteq> [] \<and> h_loops h < kMaxLoops")
    case True
    let ?hinc = "h\<lparr>h_loops := h_loops h + 1\<rparr>"
    let ?hnext = "hourBody cm donors ?hinc"
    have eq: "hourLoop cm donors h = hourLoop cm donors ?hnext"
      using True by (subst hourLoop.simps) simp
    have "h_needs ?hinc \<noteq> []" "I (h_manager ?hinc)" "\<forall>tr\<in>set (hourTransfers ?hinc). P tr"
      "region ` set (h_needs ?hinc) \<subseteq> T"
      using True "1.prems"(1,2,3) by (simp_all add: hourTransfers_def)
    then have "I (h_manager ?hnext) \<and> (\<forall>tr\<in>set (hourTransfers ?hnext). P tr) \<and>
        region ` set (h_needs ?hnext) \<subseteq> T"
      using step by (rule hourBody_rule)
    then have h1: "I (h_manager ?hnext)" "\<forall>tr\<in>set (hourTransfers ?hnext). P tr"
      "region ` set (h_needs ?hnext) \<subseteq> T" by blast+
    have c: "h_needs h \<noteq> [] \<and> donors \<noteq> []" "h_loops h < kMaxLoops" using True by simp_all
    show ?thesis
      unfolding eq using c h1 step by (rule "1.IH")
  next
    case False
    then have "h_manager (hourLoop cm donors h) = h_manager h"
      "hourTransfers (hourLoop cm donors h) = hourTransfers h"
      by (subst hourLoop.simps, auto simp: hourTransfers_def)+
    then show ?thesis using "1.prems"(1,2) by simp
  qed
qed

section \<open>Needs and donors of an hour\<close>

definition needy :: "Region list \<Rightarrow> nat \<Rightarrow> bool" where
  "needy rs i \<longleftrightarrow> kEpsilon < getDeficit (rs ! i)"

definition spare :: "Region list \<Rightarrow> nat \<Rightarrow> bool" where
  "spare rs i \<longleftrightarrow> \<not> needy rs i \<and> kEpsilon < safeSurplus (rs ! i)"

lemma gather_needs:
  "map region (fst (gather rs is (ns, ds))) = map region ns @ filter (needy rs) is"
  by (induction "is" arbitrary: ns ds) (simp_all add: Let_def needy_def pq_push_def)

lemma gather_donors: "snd (gather rs is (ns, ds)) = ds @ filter (spare rs) is"
  by (induction "is" arbitrary: ns ds) (simp_all add: Let_def needy_def spare_def)

lemma hourNeeds_regions:
  "map region (hourNeeds m) = filter (needy (regions m)) [0..<length (regions m)]"
  by (simp add: hourNeeds_def gather_needs)

lemma hourDonors_eq: "hourDonors m = filter (spare (regions m)) [0..<length (regions m)]"
  by (simp add: hourDonors_def gather_donors)

lemma hourNeeds_distinct: "distinct (map region (hourNeeds m))"
  by (simp add: hourNeeds_regions)

lemma hourDonors_distinct: "distinct (hourDonors m)"
  by (simp add: hourDonors_eq)

lemma hourNeeds_range: "n \<in> set (hourNeeds m) \<Longrightarrow> region n < length (regions m)"
proof -
  assume "n \<in> set (hourNeeds m)"
  then have "region n \<in> set (map region (hourNeeds m))" by simp
  then show ?thesis unfolding hourNeeds_regions by simp
qed

lemma hourDonors_range: "d \<in> set (hourDonors m) \<Longrightarrow> d < length (regions m)"
  by (simp add: hourDonors_eq)

lemma hourDonors_not_needs: "d \<in> set (hourDonors m) \<Longrightarrow> n \<in> set (hourNeeds m) \<Longrightarrow> d \<noteq> region n"
proof
  assume d: "d \<in> set (hourDonors m)" and n: "n \<in> set (hourNeeds m)" and eq: "d = region n"
  from n have "region n \<in> set (map region (hourNeeds m))" by simp
  then have "needy (regions m) d" unfolding hourNeeds_regions using eq by simp
  moreover have "\<not> needy (regions m) d" using d by (simp add: hourDonors_eq spare_def)
  ultimately show False by simp
qed

lemma regions_hourStart [simp]: "regions (hourStart m) = regions m"
  by (simp add: hourStart_def)

lemma hourNeeds_hourStart [simp]: "hourNeeds (hourStart m) = hourNeeds m"
  by (simp add: hourNeeds_def)

lemma hourDonors_hourStart [simp]: "hourDonors (hourStart m) = hourDonors m"
  by (simp add: hourDonors_def)

lemma runHour_rule:
  assumes I: "I (hourStart m)"
    and step: "\<And>tr. I (t_before tr) \<Longrightarrow> valid_transfer tr \<Longrightarrow>
      t_target tr \<in> region ` set (hourNeeds m) \<Longrightarrow> t_donor tr \<in> set (hourDonors m) \<Longrightarrow>
      t_canal tr \<in> set (cm (t_donor tr) (t_target tr)) \<Longrightarrow> kEpsilon < t_avail tr \<Longrightarrow>
      P tr \<and> I (t_after tr)"
  shows "I (h_manager (runHour cm m)) \<and> (\<forall>tr\<in>set (hourTransfers (runHour cm m)). P tr)"
proof -
  let ?init = "\<lparr>h_needs = hourNeeds m, h_manager = hourStart m, h_didTransfer = False,
      h_loops = 0, h_iterations = []\<rparr>"
  have "I (h_manager ?init)" "\<forall>tr\<in>set (hourTransfers ?init). P tr"
    "region ` set (h_needs ?init) \<subseteq> region ` set (hourNeeds m)"
    using I by (simp_all add: hourTransfers_def)
  then have "I (h_manager (hourLoop cm (hourDonors m) ?init)) \<and>
      (\<forall>tr\<in>set (hourTransfers (hourLoop cm (hourDonors m) ?init)). P tr)"
    using step by (rule hourLoop_rule)
  then show ?thesis by (simp add: runHour_def Let_def)
qed

text \<open>The same for a whole run: a transfer moves water between two different regions of
  the manager, along a canal that the lookup built at the start lists for the pair.\<close>

lemma solveProblems_rule:
  assumes init: "I m"
    and start: "\<And>m'. I m' \<Longrightarrow> I (hourStart m')"
    and "next": "\<And>m'. I m' \<Longrightarrow> I (nexthour m')"
    and step: "\<And>tr. I (t_before tr) \<Longrightarrow> valid_transfer tr \<Longrightarrow> t_donor tr \<noteq> t_target tr \<Longrightarrow>
      t_donor tr < length (regions (t_before tr)) \<Longrightarrow>
      t_target tr < length (regions (t_before tr)) \<Longrightarrow>
      t_canal tr \<in> set (buildCanalMap (canals m) (t_donor tr) (t_target tr)) \<Longrightarrow>
      P tr \<and> I (t_after tr)"
  shows "I (r_manager (solveProblems solved m)) \<and>
         (\<forall>h\<in>set (r_hours (solveProblems solved m)). \<forall>tr\<in>set (hourTransfers h). P tr)"
proof -
  let ?cm = "buildCanalMap (canals m)"
  have hour: "(\<forall>tr\<in>set (hourTransfers (runHour ?cm mh)). P tr) \<and> I (h_manager (runHour ?cm mh)) \<and>
      I (nexthour (h_manager (runHour ?cm mh)))" if mh: "I mh" for mh
  proof -
    let ?J = "\<lambda>m'. I m' \<and> length (regions m') = length (regions mh)"
    have "?J (hourStart mh)" using start [OF mh] by simp
    then have "?J (h_manager (runHour ?cm mh)) \<and> (\<forall>tr\<in>set (hourTransfers (runHour ?cm mh)). P tr)"
    proof (rule runHour_rule)
      fix tr
      assume J: "?J (t_before tr)" and v: "valid_transfer tr"
        and t: "t_target tr \<in> region ` set (hourNeeds mh)"
        and d: "t_donor tr \<in> set (hourDonors mh)"
        and c: "t_canal tr \<in> set (?cm (t_donor tr) (t_target tr))"
      obtain n where n: "n \<in> set (hourNeeds mh)" "t_target tr = region n" using t by auto
      have "t_donor tr \<noteq> t_target tr" using hourDonors_not_needs [OF d n(1)] n(2) by simp
      moreover have "t_donor tr < length (regions (t_before tr))"
        using d J hourDonors_range by simp
      moreover have "t_target tr < length (regions (t_before tr))"
        using t J hourNeeds_range by auto
      ultimately have "P tr \<and> I (t_after tr)" using J v c by (intro step) simp_all
      moreover have "frame (t_before tr) (t_after tr)"
        using v by (simp add: valid_transfer_def frame_executeTransfer)
      ultimately show "P tr \<and> ?J (t_after tr)"
        using J frame_length(1) by simp
    qed
    then show ?thesis using "next" by simp
  qed
  have "I (r_manager \<lparr>r_manager = m, r_hours = []\<rparr>)"
    "\<forall>h\<in>set (r_hours \<lparr>r_manager = m, r_hours = []\<rparr>). \<forall>tr\<in>set (hourTransfers h). P tr"
    using init by simp_all
  then show ?thesis
    unfolding solveProblems_def using hour by (rule mainLoop_rule)
qed

section \<open>The canal lookup lists the canals of a pair\<close>

lemma foldl_canalMap_insert:
  "foldl (canalMap_insert cs) cm is s d =
     cm s d @ filter (\<lambda>i. sourceRegion (cs ! i) = s \<and> destinationRegion (cs ! i) = d) is"
  by (induction "is" arbitrary: cm) (auto simp: canalMap_insert_def Let_def)

lemma buildCanalMap_eq:
  "buildCanalMap cs s d =
     filter (\<lambda>i. sourceRegion (cs ! i) = s \<and> destinationRegion (cs ! i) = d) [0..<length cs]"
  by (simp add: buildCanalMap_def foldl_canalMap_insert)

lemma buildCanalMap_mem:
  "c \<in> set (buildCanalMap cs s d) \<longleftrightarrow>
     c < length cs \<and> sourceRegion (cs ! c) = s \<and> destinationRegion (cs ! c) = d"
  by (auto simp: buildCanalMap_eq)

lemma buildCanalMap_distinct: "distinct (buildCanalMap cs s d)"
  by (simp add: buildCanalMap_eq)

lemma canalXfer_SomeD:
  assumes "canalXfer m target deficit avail c = Some (w, x)"
  shows "waterSource (canals m ! c) = Some w"
    and "kEpsilon < ws_waterLevel (sources m w)"
    and "x = min deficit (min avail (min (ws_waterLevel (sources m w))
            (waterCapacity (regions m ! target) - waterLevel (regions m ! target))))"
    and "kEpsilon < x"
  using assms by (auto simp: canalXfer_def Let_def split: option.splits if_splits)

lemma static_nth:
  assumes "static m m'"
  shows "i < length (regions m) \<Longrightarrow> waterNeed (regions m' ! i) = waterNeed (regions m ! i)"
    and "i < length (regions m) \<Longrightarrow> waterCapacity (regions m' ! i) = waterCapacity (regions m ! i)"
    and "c < length (canals m) \<Longrightarrow> sourceRegion (canals m' ! c) = sourceRegion (canals m ! c)"
    and "c < length (canals m) \<Longrightarrow> destinationRegion (canals m' ! c) = destinationRegion (canals m ! c)"
    and "c < length (canals m) \<Longrightarrow> waterSource (canals m' ! c) = waterSource (canals m ! c)"
proof -
  have eq: "map f xs = map f ys \<Longrightarrow> i < length ys \<Longrightarrow> f (xs ! i) = f (ys ! i)" for f :: "'a \<Rightarrow> 'b" and xs ys i
    by (metis length_map nth_map)
  show "i < length (regions m) \<Longrightarrow> waterNeed (regions m' ! i) = waterNeed (regions m ! i)"
    "i < length (regions m) \<Longrightarrow> waterCapacity (regions m' ! i) = waterCapacity (regions m ! i)"
    "c < length (canals m) \<Longrightarrow> sourceRegion (canals m' ! c) = sourceRegion (canals m ! c)"
    "c < length (canals m) \<Longrightarrow> destinationRegion (canals m' ! c) = destinationRegion (canals m ! c)"
    "c < length (canals m) \<Longrightarrow> waterSource (canals m' ! c) = waterSource (canals m ! c)"
    using assms eq unfolding static_def by blast+
qed

lemma static_hourStart: "static m (hourStart m)"
  by (simp add: frame_hourStart frame_static)

lemma executeTransfer_levels:
  assumes "src \<noteq> target" "src < length (regions m)" "target < length (regions m)"
  shows "waterLevel (regions (executeTransfer c w src target x m) ! src) = waterLevel (regions m ! src) - x"
    and "waterLevel (regions (executeTransfer c w src target x m) ! target) = waterLevel (regions m ! target) + x"
    and "ws_waterLevel (sources (executeTransfer c w src target x m) w) = ws_waterLevel (sources m w) - x"
  using assms by (simp_all add: executeTransfer_def Let_def updateWaterLevel_def ws_updateWaterLevel_def)


section \<open>The logged states are the states of the run\<close>
















text \<open>
  Claim C8. If no water source starts a run of \<open>solveProblems\<close> below zero, then after
  every transfer the run executes every water source is at zero or above.
\<close>

theorem sources_nonnegative:
  assumes "\<forall>w. 0 \<le> ws_waterLevel (sources m w)"
    and "h \<in> set (r_hours (solveProblems solved m))" and "tr \<in> set (hourTransfers h)"
  shows "0 \<le> ws_waterLevel (sources (t_after tr) w)"
proof -
  let ?I = "\<lambda>m'. \<forall>w. 0 \<le> ws_waterLevel (sources m' w)"
  have "?I (r_manager (solveProblems solved m)) \<and>
      (\<forall>h\<in>set (r_hours (solveProblems solved m)). \<forall>tr\<in>set (hourTransfers h). ?I (t_after tr))"
  proof (rule solveProblems_rule)
    show "?I m" using assms(1) .
    show "?I (hourStart m')" if "?I m'" for m' using that by (simp add: hourStart_def)
    show "?I (nexthour m')" if "?I m'" for m' using that by (simp add: nexthour_def)
    fix tr
    assume I: "?I (t_before tr)" and v: "valid_transfer tr"
    have after: "t_after tr = executeTransfer (t_canal tr) (t_source tr) (t_donor tr) (t_target tr)
        (t_amount tr) (t_before tr)"
      and x: "canalXfer (t_before tr) (t_target tr) (t_deficit tr) (t_avail tr) (t_canal tr) =
        Some (t_source tr, t_amount tr)"
      using v by (simp_all add: valid_transfer_def)
    have "t_amount tr \<le> ws_waterLevel (sources (t_before tr) (t_source tr))"
      using canalXfer_SomeD(3) [OF x] by simp
    then have "?I (t_after tr)"
      unfolding after using I
      by (simp add: executeTransfer_def Let_def ws_updateWaterLevel_def)
    then show "?I (t_after tr) \<and> ?I (t_after tr)" by simp
  qed
  then show ?thesis using assms(2,3) by blast
qed

text \<open>A donor with safe surplus 7 and a region with deficit 7, joined by one canal.\<close>

definition exact_manager :: AcequiaManager where
  "exact_manager =
     \<lparr>regions = [\<lparr>waterLevel = 20, waterNeed = 10, waterCapacity = 30\<rparr>,
                 \<lparr>waterLevel = 3, waterNeed = 10, waterCapacity = 20\<rparr>],
      canals = [\<lparr>sourceRegion = 0, destinationRegion = 1, waterSource = Some 0,
                 isOpen = False, flowRate = 0\<rparr>],
      sources = (\<lambda>w. \<lparr>ws_waterLevel = 100\<rparr>),
      hour = 0, SimulationMax = 24\<rparr>"

text \<open>The first hour of a run that no \<open>solved\<close> predicate stops, and its first transfer.\<close>

definition first_hour :: "AcequiaManager \<Rightarrow> Hour" where
  "first_hour m = hd (r_hours (solveProblems (\<lambda>m'. False) m))"

definition first_transfer :: "AcequiaManager \<Rightarrow> Transfer" where
  "first_transfer m = hd (hourTransfers (first_hour m))"

lemma exact_run:
  "length (r_hours (solveProblems (\<lambda>m'. False) exact_manager)) = 2"
  "length (hourTransfers (first_hour exact_manager)) = 1"
  by code_simp+

lemma exact_first:
  "first_hour exact_manager \<in> set (r_hours (solveProblems (\<lambda>m'. False) exact_manager))"
  "first_transfer exact_manager \<in> set (hourTransfers (first_hour exact_manager))"
  unfolding first_transfer_def using exact_run
  by (auto simp: first_hour_def length_greater_0_conv [symmetric] simp del: length_greater_0_conv)



theorem sources_nonnegative_witness:
  "(\<forall>w. 0 \<le> ws_waterLevel (sources exact_manager w)) \<and>
   first_hour exact_manager \<in> set (r_hours (solveProblems (\<lambda>m'. False) exact_manager)) \<and>
   first_transfer exact_manager \<in> set (hourTransfers (first_hour exact_manager)) \<and>
   0 \<le> ws_waterLevel (sources (t_after (first_transfer exact_manager)) 0)"
proof -
  have start: "\<forall>w. 0 \<le> ws_waterLevel (sources exact_manager w)"
    by (simp add: exact_manager_def)
  show ?thesis
    using sources_nonnegative [OF start exact_first, of 0] start exact_first by simp
qed

section \<open>Hours whose donors are exhausted\<close>

lemma donorLoop_exhausted:
  "\<forall>d\<in>set ds. safeSurplus (regions (sc_manager s) ! d) \<le> kEpsilon \<Longrightarrow>
   donorLoop cm target ds s = s"
  by (induction ds) (simp_all add: Let_def)

lemma hourBody_exhausted:
  assumes "\<forall>d\<in>set ds. safeSurplus (regions (h_manager h) ! d) \<le> kEpsilon"
  shows "h_manager (hourBody cm ds h) = h_manager h"
    and "hourTransfers (hourBody cm ds h) = hourTransfers h"
    and "h_didTransfer (hourBody cm ds h) = h_didTransfer h"
  using assms by (simp_all add: hourBody_def Let_def donorLoop_exhausted hourTransfers_def)

lemma hourLoop_exhausted:
  "\<forall>d\<in>set ds. safeSurplus (regions (h_manager h) ! d) \<le> kEpsilon \<Longrightarrow>
   h_manager (hourLoop cm ds h) = h_manager h \<and>
   hourTransfers (hourLoop cm ds h) = hourTransfers h \<and>
   h_didTransfer (hourLoop cm ds h) = h_didTransfer h"
proof (induction cm ds h rule: hourLoop.induct)
  case (1 cm ds h)
  show ?case
  proof (cases "h_needs h \<noteq> [] \<and> ds \<noteq> [] \<and> h_loops h < kMaxLoops")
    case True
    let ?hinc = "h\<lparr>h_loops := h_loops h + 1\<rparr>"
    let ?hnext = "hourBody cm ds ?hinc"
    have eq: "hourLoop cm ds h = hourLoop cm ds ?hnext"
      using True by (subst hourLoop.simps) simp
    have ex: "\<forall>d\<in>set ds. safeSurplus (regions (h_manager ?hinc) ! d) \<le> kEpsilon"
      using "1.prems" by simp
    have c: "h_needs h \<noteq> [] \<and> ds \<noteq> []" "h_loops h < kMaxLoops" using True by simp_all
    have "\<forall>d\<in>set ds. safeSurplus (regions (h_manager ?hnext) ! d) \<le> kEpsilon"
      using ex by (simp add: hourBody_exhausted(1) [OF ex])
    with c have "h_manager (hourLoop cm ds ?hnext) = h_manager ?hnext \<and>
        hourTransfers (hourLoop cm ds ?hnext) = hourTransfers ?hnext \<and>
        h_didTransfer (hourLoop cm ds ?hnext) = h_didTransfer ?hnext"
      by (rule "1.IH")
    moreover have "hourTransfers ?hinc = hourTransfers h" by (simp add: hourTransfers_def)
    ultimately show ?thesis
      unfolding eq by (simp add: hourBody_exhausted [OF ex])
  next
    case False
    then show ?thesis by (subst (1 2 3) hourLoop.simps) (auto simp: hourTransfers_def)
  qed
qed

text \<open>The scenario of the spec: region A (level 20, need 10, capacity 30), region B
  (level 2, need 10, capacity 20), one canal from A to B, its water source at level 100.\<close>

definition simple_manager :: AcequiaManager where
  "simple_manager =
     \<lparr>regions = [\<lparr>waterLevel = 20, waterNeed = 10, waterCapacity = 30\<rparr>,
                 \<lparr>waterLevel = 2, waterNeed = 10, waterCapacity = 20\<rparr>],
      canals = [\<lparr>sourceRegion = 0, destinationRegion = 1, waterSource = Some 0,
                 isOpen = False, flowRate = 0\<rparr>],
      sources = (\<lambda>w. \<lparr>ws_waterLevel = 100\<rparr>),
      hour = 0, SimulationMax = 24\<rparr>"

text \<open>The state of an hour after the first pass through the body of the greedy loop.\<close>

definition firstPass :: "(nat \<Rightarrow> nat \<Rightarrow> nat list) \<Rightarrow> AcequiaManager \<Rightarrow> Hour" where
  "firstPass cm m =
     hourBody cm (hourDonors (hourStart m))
       \<lparr>h_needs = hourNeeds (hourStart m), h_manager = hourStart m, h_didTransfer = False,
        h_loops = 0 + 1, h_iterations = []\<rparr>"

lemma runHour_firstPass:
  assumes "hourNeeds (hourStart m) \<noteq> []" and "hourDonors (hourStart m) \<noteq> []"
  shows "runHour cm m = hourLoop cm (hourDonors (hourStart m)) (firstPass cm m)"
  unfolding runHour_def Let_def firstPass_def
  using assms by (subst hourLoop.simps) (simp add: kMaxLoops_def)

lemma simple_firstPass:
  "h_manager (firstPass (buildCanalMap (canals simple_manager)) simple_manager) =
     simple_manager
       \<lparr>regions := [\<lparr>waterLevel = 13, waterNeed = 10, waterCapacity = 30\<rparr>,
                    \<lparr>waterLevel = 9, waterNeed = 10, waterCapacity = 20\<rparr>],
        canals := [\<lparr>sourceRegion = 0, destinationRegion = 1, waterSource = Some 0,
                    isOpen = True, flowRate = 7 / 3600\<rparr>],
        sources := (sources simple_manager)(0 := \<lparr>ws_waterLevel = 93\<rparr>)\<rparr>"
  apply (simp add: firstPass_def hourBody_def Let_def simple_manager_def hourStart_def hourNeeds_def
    hourDonors_def resetCanal_def setFlowRate_def toggleOpen_def getDeficit_def safeSurplus_def
    kEpsilon_def kSafetyMargin_def pq_push_def pq_top_def pq_pop_def need_less_def
    buildCanalMap_def canalMap_insert_def canalXfer_def scanTransfer_def executeTransfer_def
    updateWaterLevel_def ws_updateWaterLevel_def)
  done


lemma simple_start:
  "hourNeeds simple_manager = [\<lparr>region = 1, amount = 8\<rparr>]"
  "hourDonors simple_manager = [0]"
  by (simp_all add: simple_manager_def hourNeeds_def hourDonors_def getDeficit_def
      safeSurplus_def kEpsilon_def kSafetyMargin_def pq_push_def)

lemma simple_firstPass_transfers:
  "map t_amount (hourTransfers (firstPass (buildCanalMap (canals simple_manager)) simple_manager)) = [7]"
  by code_simp

text \<open>
  Claim C4. In the scenario of the spec the safe surplus of A is 7 and the deficit of B
  is 8; one hour of allocation executes exactly one transfer, of amount 7, and ends in
  the state where A is at 13, B at 9, the water source of the canal at 93 and the canal
  open with flow rate 7/3600; nothing else has changed.
\<close>

theorem simple_transfer_scenario:
  "safeSurplus (regions simple_manager ! 0) = 7 \<and>
   getDeficit (regions simple_manager ! 1) = 8 \<and>
   map t_amount (hourTransfers (runHour (buildCanalMap (canals simple_manager)) simple_manager)) = [7] \<and>
   h_manager (runHour (buildCanalMap (canals simple_manager)) simple_manager) =
     simple_manager
       \<lparr>regions := [\<lparr>waterLevel = 13, waterNeed = 10, waterCapacity = 30\<rparr>,
                    \<lparr>waterLevel = 9, waterNeed = 10, waterCapacity = 20\<rparr>],
        canals := [\<lparr>sourceRegion = 0, destinationRegion = 1, waterSource = Some 0,
                    isOpen = True, flowRate = 7 / 3600\<rparr>],
        sources := (sources simple_manager)(0 := \<lparr>ws_waterLevel = 93\<rparr>)\<rparr>"
proof -
  let ?cm = "buildCanalMap (canals simple_manager)"
  let ?h = "firstPass ?cm simple_manager"
  have run: "runHour ?cm simple_manager = hourLoop ?cm [0] ?h"
    using runHour_firstPass [of simple_manager ?cm] by (simp add: simple_start)
  have "\<forall>d\<in>set [0]. safeSurplus (regions (h_manager ?h) ! d) \<le> kEpsilon"
    by (simp add: simple_firstPass safeSurplus_def kSafetyMargin_def kEpsilon_def)
  then have "h_manager (hourLoop ?cm [0] ?h) = h_manager ?h \<and>
      hourTransfers (hourLoop ?cm [0] ?h) = hourTransfers ?h \<and>
      h_didTransfer (hourLoop ?cm [0] ?h) = h_didTransfer ?h"
    by (rule hourLoop_exhausted)
  then have "h_manager (runHour ?cm simple_manager) = h_manager ?h"
    and "hourTransfers (runHour ?cm simple_manager) = hourTransfers ?h"
    by (simp_all add: run)
  moreover have "safeSurplus (regions simple_manager ! 0) = 7"
    "getDeficit (regions simple_manager ! 1) = 8"
    by (simp_all add: simple_manager_def safeSurplus_def getDeficit_def kSafetyMargin_def)
  ultimately show ?thesis
    by (simp only: simple_firstPass simple_firstPass_transfers)
qed

section \<open>The need that an iteration serves\<close>

text \<open>What the log says of one pass through the greedy loop: the popped need was in the
  queue, no queued need had a larger amount, and every transfer of the pass went to the
  region of the popped need.\<close>

definition pops_greatest :: "Iteration \<Rightarrow> bool" where
  "pops_greatest it \<longleftrightarrow>
     it_popped it \<in> set (it_queue it) \<and>
     (\<forall>n\<in>set (it_queue it). amount n \<le> amount (it_popped it)) \<and>
     (\<forall>tr\<in>set (it_transfers it). t_target tr = region (it_popped it))"

lemma hourBody_iteration:
  assumes "h_needs h \<noteq> []"
  shows "\<exists>it. h_iterations (hourBody cm donors h) = h_iterations h @ [it] \<and> pops_greatest it"
proof -
  let ?curr = "pq_top (h_needs h)"
  let ?init = "\<lparr>sc_manager = h_manager h, sc_deficit = amount ?curr,
        sc_didTransfer = h_didTransfer h, sc_log = []\<rparr>"
  let ?s = "donorLoop cm (region ?curr) donors ?init"
  let ?it = "\<lparr>it_queue = h_needs h, it_popped = ?curr, it_transfers = sc_log ?s\<rparr>"
  have "True" "\<forall>tr\<in>set (sc_log ?init). t_target tr = region ?curr" by simp_all
  then have "True \<and> (\<forall>tr\<in>set (sc_log ?s). t_target tr = region ?curr)"
    by (rule donorLoop_rule [where I = "\<lambda>m. True"]) simp
  then have "pops_greatest ?it"
    using pq_top_mem [OF assms] pq_top_max [of _ "h_needs h"] by (simp add: pops_greatest_def)
  moreover have "h_iterations (hourBody cm donors h) = h_iterations h @ [?it]"
    by (simp add: hourBody_def Let_def)
  ultimately show ?thesis by blast
qed

lemma hourLoop_iterations_log:
  "\<forall>it\<in>set (h_iterations h). pops_greatest it \<Longrightarrow>
   \<exists>more. h_iterations (hourLoop cm donors h) = h_iterations h @ more \<and>
     (\<forall>it\<in>set more. pops_greatest it)"
proof (induction cm donors h rule: hourLoop.induct)
  case (1 cm donors h)
  show ?case
  proof (cases "h_needs h \<noteq> [] \<and> donors \<noteq> [] \<and> h_loops h < kMaxLoops")
    case True
    let ?hinc = "h\<lparr>h_loops := h_loops h + 1\<rparr>"
    let ?hnext = "hourBody cm donors ?hinc"
    have eq: "hourLoop cm donors h = hourLoop cm donors ?hnext"
      using True by (subst hourLoop.simps) simp
    obtain it where it: "h_iterations ?hnext = h_iterations h @ [it]" "pops_greatest it"
      using hourBody_iteration [of ?hinc cm donors] True by auto
    have c: "h_needs h \<noteq> [] \<and> donors \<noteq> []" "h_loops h < kMaxLoops" using True by simp_all
    have "\<forall>it\<in>set (h_iterations ?hnext). pops_greatest it"
      using it "1.prems" by simp
    with c have "\<exists>more. h_iterations (hourLoop cm donors ?hnext) = h_iterations ?hnext @ more \<and>
        (\<forall>it\<in>set more. pops_greatest it)"
      by (rule "1.IH")
    then obtain more where "h_iterations (hourLoop cm donors ?hnext) = h_iterations h @ it # more"
      "\<forall>it\<in>set more. pops_greatest it"
      using it by auto
    then show ?thesis unfolding eq using it(2) by (intro exI [of _ "it # more"]) simp
  next
    case False
    then have "hourLoop cm donors h = h \<or> h_iterations (hourLoop cm donors h) = h_iterations h"
      by (subst (1 2) hourLoop.simps) auto
    then show ?thesis by auto
  qed
qed

lemma runHour_pops_greatest: "\<forall>it\<in>set (h_iterations (runHour cm m)). pops_greatest it"
  using hourLoop_iterations_log [of "\<lparr>h_needs = hourNeeds m, h_manager = hourStart m,
      h_didTransfer = False, h_loops = 0, h_iterations = []\<rparr>" cm "hourDonors m"]
  by (auto simp: runHour_def Let_def)

lemma solveProblems_pops_greatest:
  "\<forall>h\<in>set (r_hours (solveProblems solved m)). \<forall>it\<in>set (h_iterations h). pops_greatest it"
  unfolding solveProblems_def
  using mainLoop_rule [of "\<lambda>m. True" "\<lparr>r_manager = m, r_hours = []\<rparr>"
      "\<lambda>h. \<forall>it\<in>set (h_iterations h). pops_greatest it" "buildCanalMap (canals m)" solved
      "SimulationMax m"]
  by (simp add: runHour_pops_greatest)

lemma runHour_first_iteration:
  assumes "hourNeeds m \<noteq> []" and "hourDonors m \<noteq> []"
  shows "hd (h_iterations (runHour cm m)) = hd (h_iterations (firstPass cm m))"
proof -
  have one: "length (h_iterations (firstPass cm m)) = 1"
    by (simp add: firstPass_def hourBody_iterations)
  have "\<forall>it\<in>set (h_iterations (firstPass cm m)). pops_greatest it"
    using hourBody_iteration [of "\<lparr>h_needs = hourNeeds m, h_manager = hourStart m,
      h_didTransfer = False, h_loops = 0 + 1, h_iterations = []\<rparr>" cm "hourDonors m"] assms(1)
    by (auto simp: firstPass_def)
  then obtain more where
    "h_iterations (hourLoop cm (hourDonors m) (firstPass cm m)) = h_iterations (firstPass cm m) @ more"
    using hourLoop_iterations_log by blast
  moreover have "h_iterations (firstPass cm m) \<noteq> []" using one by auto
  ultimately show ?thesis
    using runHour_firstPass [of m cm] assms by simp
qed

text \<open>The greedy-priority scenario of the spec: a donor with safe surplus 8 (region 0), a
  region with deficit 5 (region 1) and a region with deficit 10 (region 2), a canal from
  the donor to each of them, both on one water source at level 100.\<close>

definition priority_manager :: AcequiaManager where
  "priority_manager =
     \<lparr>regions = [\<lparr>waterLevel = 20, waterNeed = 10, waterCapacity = 20\<rparr>,
                 \<lparr>waterLevel = 5, waterNeed = 10, waterCapacity = 20\<rparr>,
                 \<lparr>waterLevel = 0, waterNeed = 10, waterCapacity = 20\<rparr>],
      canals = [\<lparr>sourceRegion = 0, destinationRegion = 1, waterSource = Some 0,
                 isOpen = False, flowRate = 0\<rparr>,
                \<lparr>sourceRegion = 0, destinationRegion = 2, waterSource = Some 0,
                 isOpen = False, flowRate = 0\<rparr>],
      sources = (\<lambda>w. \<lparr>ws_waterLevel = 100\<rparr>),
      hour = 0, SimulationMax = 24\<rparr>"

text \<open>The same with two equal deficits of 5 and a donor with safe surplus 16.\<close>

definition tie_manager :: AcequiaManager where
  "tie_manager =
     \<lparr>regions = [\<lparr>waterLevel = 30, waterNeed = 10, waterCapacity = 40\<rparr>,
                 \<lparr>waterLevel = 5, waterNeed = 10, waterCapacity = 20\<rparr>,
                 \<lparr>waterLevel = 5, waterNeed = 10, waterCapacity = 20\<rparr>],
      canals = [\<lparr>sourceRegion = 0, destinationRegion = 1, waterSource = Some 0,
                 isOpen = False, flowRate = 0\<rparr>,
                \<lparr>sourceRegion = 0, destinationRegion = 2, waterSource = Some 0,
                 isOpen = False, flowRate = 0\<rparr>],
      sources = (\<lambda>w. \<lparr>ws_waterLevel = 100\<rparr>),
      hour = 0, SimulationMax = 24\<rparr>"

lemma priority_start:
  "hourNeeds priority_manager = [\<lparr>region = 1, amount = 5\<rparr>, \<lparr>region = 2, amount = 10\<rparr>]"
  "hourDonors priority_manager = [0]"
  by (simp_all add: priority_manager_def hourNeeds_def
      hourDonors_def getDeficit_def safeSurplus_def kEpsilon_def kSafetyMargin_def pq_push_def upt_rec)

lemma priority_firstPass:
  "it_popped (hd (h_iterations (firstPass (buildCanalMap (canals priority_manager)) priority_manager))) =
     \<lparr>region = 2, amount = 10\<rparr>"
  "map (\<lambda>tr. (t_target tr, t_amount tr))
     (hourTransfers (firstPass (buildCanalMap (canals priority_manager)) priority_manager)) = [(2, 8)]"
  "map waterLevel (regions (h_manager (firstPass (buildCanalMap (canals priority_manager)) priority_manager))) =
     [12, 5, 8]"
  "safeSurplus (regions (h_manager (firstPass (buildCanalMap (canals priority_manager)) priority_manager)) ! 0)
     \<le> kEpsilon"
  by code_simp+


text \<open>
  Claim C5, as amended. On every iteration of the greedy loop, in every hour of a run, the
  need that is popped is a queued need whose remaining deficit is at least that of every
  other queued need (so it is the strictly largest one whenever the largest deficit is
  not shared), and the transfers of the iteration all go to its region. In the scenario
  of the spec (deficits 10 and 5, one donor with safe surplus 8 connected to both) the
  first iteration serves the region with deficit 10, which receives 8; this is the only
  transfer of the hour, so the region with deficit 5 stays at its level, and the donor's
  safe surplus ends at or below the threshold.
\<close>

theorem greedy_priority:
  "(\<forall>h\<in>set (r_hours (solveProblems solved m)). \<forall>it\<in>set (h_iterations h). pops_greatest it) \<and>
   getDeficit (regions priority_manager ! 2) = 10 \<and>
   getDeficit (regions priority_manager ! 1) = 5 \<and>
   safeSurplus (regions priority_manager ! 0) = 8 \<and>
   it_popped (hd (h_iterations (runHour (buildCanalMap (canals priority_manager)) priority_manager))) =
     \<lparr>region = 2, amount = 10\<rparr> \<and>
   map (\<lambda>tr. (t_target tr, t_amount tr))
     (hourTransfers (runHour (buildCanalMap (canals priority_manager)) priority_manager)) = [(2, 8)] \<and>
   map waterLevel (regions (h_manager (runHour (buildCanalMap (canals priority_manager)) priority_manager))) =
     [12, 5, 8] \<and>
   safeSurplus (regions (h_manager (runHour (buildCanalMap (canals priority_manager)) priority_manager)) ! 0)
     \<le> kEpsilon"
proof -
  let ?cm = "buildCanalMap (canals priority_manager)"
  let ?h = "firstPass ?cm priority_manager"
  have run: "runHour ?cm priority_manager = hourLoop ?cm [0] ?h"
    using runHour_firstPass [of priority_manager ?cm] by (simp add: priority_start)
  have "\<forall>d\<in>set [0]. safeSurplus (regions (h_manager ?h) ! d) \<le> kEpsilon"
    using priority_firstPass(4) by simp
  then have "h_manager (hourLoop ?cm [0] ?h) = h_manager ?h \<and>
      hourTransfers (hourLoop ?cm [0] ?h) = hourTransfers ?h \<and>
      h_didTransfer (hourLoop ?cm [0] ?h) = h_didTransfer ?h"
    by (rule hourLoop_exhausted)
  then have "h_manager (runHour ?cm priority_manager) = h_manager ?h"
    and "hourTransfers (runHour ?cm priority_manager) = hourTransfers ?h"
    by (simp_all add: run)
  moreover have "hd (h_iterations (runHour ?cm priority_manager)) = hd (h_iterations ?h)"
    by (rule runHour_first_iteration) (simp_all add: priority_start)
  moreover have "getDeficit (regions priority_manager ! 2) = 10"
    "getDeficit (regions priority_manager ! 1) = 5"
    "safeSurplus (regions priority_manager ! 0) = 8"
    by (simp_all add: priority_manager_def safeSurplus_def getDeficit_def kSafetyMargin_def)
  ultimately show ?thesis
    using solveProblems_pops_greatest [of solved m]
    by (simp only: priority_firstPass simp_thms)
qed

lemma tie_run:
  "length (r_hours (solveProblems (\<lambda>m'. False) tie_manager)) = 2"
  "length (h_iterations (first_hour tie_manager)) = 2"
  by code_simp+

theorem greedy_priority_witness:
  "first_hour tie_manager \<in> set (r_hours (solveProblems (\<lambda>m'. False) tie_manager)) \<and>
   hd (h_iterations (first_hour tie_manager)) \<in> set (h_iterations (first_hour tie_manager)) \<and>
   pops_greatest (hd (h_iterations (first_hour tie_manager)))"
proof -
  have a: "first_hour tie_manager \<in> set (r_hours (solveProblems (\<lambda>m'. False) tie_manager))"
    unfolding first_hour_def using tie_run(1)
    by (auto simp: length_greater_0_conv [symmetric] simp del: length_greater_0_conv)
  have b: "hd (h_iterations (first_hour tie_manager)) \<in> set (h_iterations (first_hour tie_manager))"
    using tie_run(2)
    by (auto simp: length_greater_0_conv [symmetric] simp del: length_greater_0_conv)
  show ?thesis
    using greedy_priority [of "\<lambda>m'. False" tie_manager] a b by blast
qed

text \<open>With two equal deficits the popped need is not strictly larger than the other
  queued need.\<close>

theorem greedy_priority_counterexample:
  "it_queue (hd (h_iterations (first_hour tie_manager))) =
     [\<lparr>region = 1, amount = 5\<rparr>, \<lparr>region = 2, amount = 5\<rparr>] \<and>
   it_popped (hd (h_iterations (first_hour tie_manager))) = \<lparr>region = 1, amount = 5\<rparr> \<and>
   \<not> amount \<lparr>region = 2, amount = 5\<rparr> < amount (it_popped (hd (h_iterations (first_hour tie_manager))))"
  by code_simp

section \<open>Several canals between one pair of regions\<close>

text \<open>A donor with safe surplus 7 (region 0) and a region with deficit 21 (region 1),
  joined by three canals on one water source at level 100.\<close>

definition parallel_manager :: AcequiaManager where
  "parallel_manager =
     \<lparr>regions = [\<lparr>waterLevel = 20, waterNeed = 10, waterCapacity = 30\<rparr>,
                 \<lparr>waterLevel = 0, waterNeed = 21, waterCapacity = 30\<rparr>],
      canals = [\<lparr>sourceRegion = 0, destinationRegion = 1, waterSource = Some 0,
                 isOpen = False, flowRate = 0\<rparr>,
                \<lparr>sourceRegion = 0, destinationRegion = 1, waterSource = Some 0,
                 isOpen = False, flowRate = 0\<rparr>,
                \<lparr>sourceRegion = 0, destinationRegion = 1, waterSource = Some 0,
                 isOpen = False, flowRate = 0\<rparr>],
      sources = (\<lambda>w. \<lparr>ws_waterLevel = 100\<rparr>),
      hour = 0, SimulationMax = 24\<rparr>"

text \<open>
  Claim C1 fails on this input. The levels start within bounds; the one scan of the
  donor moves 7 along each of the three canals, because \<open>avail\<close> is read once before the
  canals are tried (line 97) and not again after a transfer; the donor is at 13, then at
  6, below its need, then at -1, below zero, and the run returns with the donor at -1.
\<close>

theorem parallel_canals_overdraw:
  "map waterLevel (regions parallel_manager) = [20, 0] \<and>
   map waterCapacity (regions parallel_manager) = [30, 30] \<and>
   safeSurplus (regions parallel_manager ! 0) = 7 \<and>
   map t_canal (hourTransfers (first_hour parallel_manager)) = [0, 1, 2] \<and>
   map t_amount (hourTransfers (first_hour parallel_manager)) = [7, 7, 7] \<and>
   map (\<lambda>tr. waterLevel (regions (t_after tr) ! t_donor tr))
     (hourTransfers (first_hour parallel_manager)) = [13, 6, - 1] \<and>
   map waterLevel (regions (r_manager (solveProblems (\<lambda>m'. False) parallel_manager))) = [- 1, 21]"
  by code_simp

text \<open>
  Claim C2 fails on the same input. For the second transfer of the scan the remaining
  deficit is 14, the donor's safe surplus in the state before the transfer is 0, the
  water source is at 93 and the headroom of the target is 23, so the minimum of the four
  is 0; the amount moved is 7, the value \<open>avail\<close> had before the first transfer.
\<close>

theorem parallel_canals_stale_surplus:
  "t_deficit (hourTransfers (first_hour parallel_manager) ! 1) = 14 \<and>
   safeSurplus (regions (t_before (hourTransfers (first_hour parallel_manager) ! 1)) !
     t_donor (hourTransfers (first_hour parallel_manager) ! 1)) = 0 \<and>
   ws_waterLevel (sources (t_before (hourTransfers (first_hour parallel_manager) ! 1))
     (t_source (hourTransfers (first_hour parallel_manager) ! 1))) = 93 \<and>
   waterCapacity (regions (t_before (hourTransfers (first_hour parallel_manager) ! 1)) !
     t_target (hourTransfers (first_hour parallel_manager) ! 1)) -
   waterLevel (regions (t_before (hourTransfers (first_hour parallel_manager) ! 1)) !
     t_target (hourTransfers (first_hour parallel_manager) ! 1)) = 23 \<and>
   t_avail (hourTransfers (first_hour parallel_manager) ! 1) = 7 \<and>
   t_amount (hourTransfers (first_hour parallel_manager) ! 1) = 7"
  by code_simp

section \<open>A canal carries at most one transfer per hour\<close>

text \<open>Within an hour the regions split into donors \<open>D\<close>, which only give, and targets
  \<open>T\<close>, which only receive; water sources only lose water.\<close>

definition later :: "nat set \<Rightarrow> nat set \<Rightarrow> AcequiaManager \<Rightarrow> AcequiaManager \<Rightarrow> bool" where
  "later D T m m' \<longleftrightarrow>
     static m m' \<and>
     (\<forall>w. ws_waterLevel (sources m' w) \<le> ws_waterLevel (sources m w)) \<and>
     (\<forall>d\<in>D. waterLevel (regions m' ! d) \<le> waterLevel (regions m ! d)) \<and>
     (\<forall>t\<in>T. waterLevel (regions m ! t) \<le> waterLevel (regions m' ! t))"

lemma later_refl [simp]: "later D T m m"
  by (simp add: later_def)

lemma later_trans: "later D T a b \<Longrightarrow> later D T b c \<Longrightarrow> later D T a c"
  unfolding later_def using static_trans by (meson order_trans)

lemma later_static: "later D T m m' \<Longrightarrow> static m m'"
  by (simp add: later_def)

lemma kEpsilon_pos: "0 < kEpsilon"
  by (simp add: kEpsilon_def)

lemma later_executeTransfer:
  assumes "d \<in> D" "t \<in> T" "D \<inter> T = {}" "0 \<le> x"
  shows "later D T m (executeTransfer c w d t x m)"
proof -
  let ?m' = "executeTransfer c w d t x m"
  have dt: "d \<noteq> t" using assms by auto
  have regs: "regions ?m' = (regions m)[d := updateWaterLevel (- x) (regions m ! d),
      t := updateWaterLevel x (regions m ! t)]"
    using dt by (simp add: executeTransfer_def Let_def)
  have "waterLevel (regions ?m' ! i) \<le> waterLevel (regions m ! i)" if "i \<in> D" for i
  proof -
    have "i \<noteq> t" using that assms by auto
    then show ?thesis
      using assms(4) unfolding regs
      by (cases "i = d"; cases "d < length (regions m)")
        (simp_all add: updateWaterLevel_def list_update_beyond)
  qed
  moreover have "waterLevel (regions m ! i) \<le> waterLevel (regions ?m' ! i)" if "i \<in> T" for i
  proof -
    have "i \<noteq> d" using that assms by auto
    then show ?thesis
      using assms(4) unfolding regs
      by (cases "i = t"; cases "t < length (regions m)")
        (simp_all add: updateWaterLevel_def list_update_beyond)
  qed
  moreover have "ws_waterLevel (sources ?m' v) \<le> ws_waterLevel (sources m v)" for v
    using assms(4) by (simp add: executeTransfer_def Let_def ws_updateWaterLevel_def)
  ultimately show ?thesis
    unfolding later_def using frame_static [OF frame_executeTransfer] by blast
qed

text \<open>A canal is clogged when its water source or the headroom of its target is at or
  below the threshold, and spent when it is clogged or its donor has no safe surplus
  above the threshold. Both persist for the rest of the hour.\<close>

definition clogged :: "AcequiaManager \<Rightarrow> nat \<Rightarrow> nat \<Rightarrow> bool" where
  "clogged m w t \<longleftrightarrow>
     ws_waterLevel (sources m w) \<le> kEpsilon \<or>
     waterCapacity (regions m ! t) - waterLevel (regions m ! t) \<le> kEpsilon"

definition spent :: "AcequiaManager \<Rightarrow> nat \<Rightarrow> nat \<Rightarrow> nat \<Rightarrow> bool" where
  "spent m d w t \<longleftrightarrow> safeSurplus (regions m ! d) \<le> kEpsilon \<or> clogged m w t"

lemma later_safeSurplus:
  assumes "later D T m m'" "d \<in> D" "d < length (regions m)"
  shows "safeSurplus (regions m' ! d) \<le> safeSurplus (regions m ! d)"
proof -
  have "waterLevel (regions m' ! d) \<le> waterLevel (regions m ! d)"
    using assms by (simp add: later_def)
  then show ?thesis
    using static_nth(1,2) [OF later_static [OF assms(1)] assms(3)]
    by (simp add: safeSurplus_def Let_def)
qed

lemma later_clogged:
  assumes "later D T m m'" "t \<in> T" "t < length (regions m)" "clogged m w t"
  shows "clogged m' w t"
proof -
  have "waterLevel (regions m ! t) \<le> waterLevel (regions m' ! t)"
    "ws_waterLevel (sources m' w) \<le> ws_waterLevel (sources m w)"
    using assms by (simp_all add: later_def)
  then show ?thesis
    using static_nth(2) [OF later_static [OF assms(1)] assms(3)] assms(4)
    by (auto simp: clogged_def)
qed

lemma later_spent:
  assumes "later D T m m'" "d \<in> D" "d < length (regions m)" "t \<in> T" "t < length (regions m)"
    "spent m d w t"
  shows "spent m' d w t"
  using later_safeSurplus [OF assms(1,2,3)] later_clogged [OF assms(1,4,5)] assms(6)
  by (auto simp: spent_def)

lemma canalXfer_not_clogged:
  "canalXfer m t deficit avail c = Some (w, x) \<Longrightarrow> \<not> clogged m w t"
  by (auto simp: canalXfer_def clogged_def Let_def split: option.splits if_splits)

lemma canalXfer_spends:
  assumes x: "canalXfer m t deficit avail c = Some (w, x)"
    and "d \<noteq> t" "d < length (regions m)" "t < length (regions m)"
    and "safeSurplus (regions m ! d) \<le> avail"
    and "kEpsilon < deficit - x"
  shows "spent (executeTransfer c w d t x m) d w t"
proof -
  let ?m' = "executeTransfer c w d t x m"
  note lv = executeTransfer_levels [OF assms(2,3,4), of c w x]
  have st: "static m ?m'" using frame_static [OF frame_executeTransfer] .
  have x_eq: "x = min deficit (min avail (min (ws_waterLevel (sources m w))
      (waterCapacity (regions m ! t) - waterLevel (regions m ! t))))"
    using canalXfer_SomeD(3) [OF x] .
  have "x < deficit" using assms(6) kEpsilon_pos by simp
  then consider "x = avail" | "x = ws_waterLevel (sources m w)"
    | "x = waterCapacity (regions m ! t) - waterLevel (regions m ! t)"
    using x_eq by (auto simp: min_def split: if_splits)
  then show ?thesis
  proof cases
    case 1
    then have "safeSurplus (regions ?m' ! d) \<le> 0"
      using assms(5) lv(1) static_nth(1,2) [OF st assms(3)]
      by (simp add: safeSurplus_def Let_def)
    then show ?thesis using kEpsilon_pos by (simp add: spent_def)
  next
    case 2
    then show ?thesis using lv(3) kEpsilon_pos by (simp add: spent_def clogged_def)
  next
    case 3
    then show ?thesis
      using lv(2) static_nth(2) [OF st assms(4)] kEpsilon_pos by (simp add: spent_def clogged_def)
  qed
qed


text \<open>The transfers of one scan, for the target \<open>t\<close>: none uses a canal of \<open>U\<close>, the
  canals used earlier in the hour; each goes from a donor to \<open>t\<close> along a canal that the
  lookup lists for the pair, on the water source of that canal.\<close>

definition scan_event :: "AcequiaManager \<Rightarrow> nat set \<Rightarrow> nat set \<Rightarrow> nat \<Rightarrow> Transfer \<Rightarrow> bool" where
  "scan_event m0 D U t tr \<longleftrightarrow>
     t_canal tr \<notin> U \<and> t_donor tr \<in> D \<and> t_target tr = t \<and>
     t_canal tr \<in> set (buildCanalMap (canals m0) (t_donor tr) t) \<and>
     waterSource (canals m0 ! t_canal tr) = Some (t_source tr)"

definition scan_inv ::
  "AcequiaManager \<Rightarrow> nat set \<Rightarrow> nat set \<Rightarrow> nat set \<Rightarrow> AcequiaManager \<Rightarrow> nat \<Rightarrow> Scan \<Rightarrow> bool" where
  "scan_inv m0 D T U ms t s \<longleftrightarrow>
     later D T ms (sc_manager s) \<and>
     distinct (map t_canal (sc_log s)) \<and>
     (\<forall>tr\<in>set (sc_log s). scan_event m0 D U t tr) \<and>
     (kEpsilon < sc_deficit s \<longrightarrow>
        (\<forall>tr\<in>set (sc_log s). spent (sc_manager s) (t_donor tr) (t_source tr) t))"

lemma scanTransfer_scan_inv:
  assumes st: "static m0 ms" and dis: "D \<inter> T = {}"
    and range: "\<forall>i\<in>D \<union> T. i < length (regions ms)" and d: "d \<in> D" and t: "t \<in> T"
    and inv: "scan_inv m0 D T U ms t s"
    and avail: "safeSurplus (regions (sc_manager s) ! d) \<le> avail"
    and c: "c \<in> set (buildCanalMap (canals m0) d t)"
    and fresh: "\<forall>tr\<in>set (sc_log s). t_canal tr \<noteq> c"
    and old: "c \<in> U \<longrightarrow> (\<forall>w. waterSource (canals m0 ! c) = Some w \<longrightarrow> clogged (sc_manager s) w t)"
    and x: "canalXfer (sc_manager s) t (sc_deficit s) avail c = Some (w, x)"
  shows "scan_inv m0 D T U ms t (scanTransfer d t avail c w x s)"
    and "safeSurplus (regions (sc_manager (scanTransfer d t avail c w x s)) ! d) \<le> avail"
    and "later D T (sc_manager s) (sc_manager (scanTransfer d t avail c w x s))"
proof -
  let ?m = "sc_manager s"
  let ?m1 = "executeTransfer c w d t x ?m"
  let ?s1 = "scanTransfer d t avail c w x s"
  define tr where "tr = \<lparr>t_canal = c, t_source = w, t_donor = d, t_target = t,
      t_deficit = sc_deficit s, t_avail = avail, t_amount = x,
      t_before = ?m, t_after = ?m1\<rparr>"
  have s1: "sc_manager ?s1 = ?m1" "sc_deficit ?s1 = sc_deficit s - x" "sc_log ?s1 = sc_log s @ [tr]"
    by (simp_all add: scanTransfer_def Let_def tr_def)
  have lat: "later D T ms ?m" and dist: "distinct (map t_canal (sc_log s))"
    and evs: "\<forall>tr\<in>set (sc_log s). scan_event m0 D U t tr"
    and sp: "kEpsilon < sc_deficit s \<longrightarrow>
        (\<forall>tr\<in>set (sc_log s). spent ?m (t_donor tr) (t_source tr) t)"
    using inv by (simp_all add: scan_inv_def)
  have len: "length (regions ?m) = length (regions ms)"
    using static_length(1) [OF later_static [OF lat]] .
  have dr: "d < length (regions ?m)" and tr_range: "t < length (regions ?m)"
    using range d t len by auto
  have dt: "d \<noteq> t" using d t dis by auto
  have st_m: "static m0 ?m" using st later_static [OF lat] static_trans by blast
  have c_len: "c < length (canals m0)" using c by (simp add: buildCanalMap_mem)
  have ws: "waterSource (canals m0 ! c) = Some w"
    using canalXfer_SomeD(1) [OF x] static_nth(5) [OF st_m c_len] by simp
  have xpos: "0 \<le> x" using canalXfer_SomeD(4) [OF x] kEpsilon_pos by simp
  have cU: "c \<notin> U" using old ws canalXfer_not_clogged [OF x] by blast
  have step: "later D T ?m ?m1" using d t dis xpos by (rule later_executeTransfer)
  then have lat1: "later D T ms ?m1" using lat later_trans by blast
  have ev: "scan_event m0 D U t tr"
    using cU d c ws by (simp add: scan_event_def tr_def)
  have dist1: "distinct (map t_canal (sc_log ?s1))"
    using dist fresh by (auto simp: s1 tr_def)
  have sp1: "spent ?m1 (t_donor e) (t_source e) t"
    if big: "kEpsilon < sc_deficit s - x" and e: "e \<in> set (sc_log ?s1)" for e
  proof (cases "e = tr")
    case True
    have "spent ?m1 d w t"
      using x dt dr tr_range avail big by (rule canalXfer_spends)
    then show ?thesis using True by (simp add: tr_def)
  next
    case False
    then have e_old: "e \<in> set (sc_log s)" using e by (simp add: s1)
    have "kEpsilon < sc_deficit s" using big xpos by simp
    then have "spent ?m (t_donor e) (t_source e) t" using sp e_old by blast
    moreover have "t_donor e \<in> D" using evs e_old by (simp add: scan_event_def)
    moreover have "t_donor e < length (regions ?m)"
      using \<open>t_donor e \<in> D\<close> range len by auto
    ultimately show ?thesis
      using step t tr_range later_spent by blast
  qed
  show "scan_inv m0 D T U ms t ?s1"
    unfolding scan_inv_def using lat1 dist1 evs ev sp1 by (auto simp: s1)
  show "safeSurplus (regions (sc_manager ?s1) ! d) \<le> avail"
    using later_safeSurplus [OF step d dr] avail by (simp add: s1)
  show "later D T ?m (sc_manager ?s1)" using step by (simp add: s1)
qed


lemma canalLoop_scan_inv:
  assumes st: "static m0 ms" and dis: "D \<inter> T = {}"
    and range: "\<forall>i\<in>D \<union> T. i < length (regions ms)" and d: "d \<in> D" and t: "t \<in> T"
  shows "scan_inv m0 D T U ms t s \<Longrightarrow>
    safeSurplus (regions (sc_manager s) ! d) \<le> avail \<Longrightarrow>
    distinct cs \<Longrightarrow> set cs \<subseteq> set (buildCanalMap (canals m0) d t) \<Longrightarrow>
    \<forall>tr\<in>set (sc_log s). t_canal tr \<notin> set cs \<Longrightarrow>
    \<forall>c\<in>set cs. c \<in> U \<longrightarrow>
      (\<forall>w. waterSource (canals m0 ! c) = Some w \<longrightarrow> clogged (sc_manager s) w t) \<Longrightarrow>
    scan_inv m0 D T U ms t (canalLoop d t avail cs s) \<and>
    (\<forall>tr\<in>set (sc_log (canalLoop d t avail cs s)). tr \<in> set (sc_log s) \<or> t_donor tr = d)"
proof (induction cs arbitrary: s)
  case Nil
  then show ?case by simp
next
  case (Cons c cs)
  have rest: "distinct cs" "set cs \<subseteq> set (buildCanalMap (canals m0) d t)" "c \<notin> set cs"
    "c \<in> set (buildCanalMap (canals m0) d t)"
    using Cons.prems(3,4) by auto
  show ?case
  proof (cases "canalXfer (sc_manager s) t (sc_deficit s) avail c")
    case None
    then have eq: "canalLoop d t avail (c # cs) s = canalLoop d t avail cs s" by simp
    have "\<forall>tr\<in>set (sc_log s). t_canal tr \<notin> set cs" using Cons.prems(5) by simp
    moreover have "\<forall>c\<in>set cs. c \<in> U \<longrightarrow>
        (\<forall>w. waterSource (canals m0 ! c) = Some w \<longrightarrow> clogged (sc_manager s) w t)"
      using Cons.prems(6) by simp
    ultimately show ?thesis
      unfolding eq using Cons.prems(1,2) rest(1,2) by (intro Cons.IH)
  next
    case (Some p)
    obtain w x where p: "p = (w, x)" by (cases p)
    let ?s1 = "scanTransfer d t avail c w x s"
    have x: "canalXfer (sc_manager s) t (sc_deficit s) avail c = Some (w, x)"
      using Some p by simp
    have eq: "canalLoop d t avail (c # cs) s =
        (if sc_deficit ?s1 \<le> kEpsilon then ?s1 else canalLoop d t avail cs ?s1)"
      using x by (simp add: Let_def)
    have fresh: "\<forall>tr\<in>set (sc_log s). t_canal tr \<noteq> c" using Cons.prems(5) by auto
    have old: "c \<in> U \<longrightarrow>
        (\<forall>w. waterSource (canals m0 ! c) = Some w \<longrightarrow> clogged (sc_manager s) w t)"
      using Cons.prems(6) by simp
    note one = scanTransfer_scan_inv [OF st dis range d t Cons.prems(1,2) rest(4) fresh old x]
    have log1: "\<forall>tr\<in>set (sc_log ?s1). tr \<in> set (sc_log s) \<or> t_donor tr = d"
      by (auto simp: scanTransfer_def Let_def)
    show ?thesis
    proof (cases "sc_deficit ?s1 \<le> kEpsilon")
      case True
      then show ?thesis unfolding eq using one(1) log1 by simp
    next
      case False
      have tlen: "t < length (regions (sc_manager s))"
      proof -
        have "later D T ms (sc_manager s)" using Cons.prems(1) by (simp add: scan_inv_def)
        then have "length (regions (sc_manager s)) = length (regions ms)"
          using static_length(1) [OF later_static] by blast
        then show ?thesis using range t by auto
      qed
      have "\<forall>tr\<in>set (sc_log ?s1). t_canal tr \<notin> set cs"
        using Cons.prems(5) rest(3) by (auto simp: scanTransfer_def Let_def)
      moreover have "\<forall>c\<in>set cs. c \<in> U \<longrightarrow>
          (\<forall>w. waterSource (canals m0 ! c) = Some w \<longrightarrow> clogged (sc_manager ?s1) w t)"
        using Cons.prems(6) later_clogged [OF one(3) t tlen] by auto
      ultimately have "scan_inv m0 D T U ms t (canalLoop d t avail cs ?s1) \<and>
          (\<forall>tr\<in>set (sc_log (canalLoop d t avail cs ?s1)). tr \<in> set (sc_log ?s1) \<or> t_donor tr = d)"
        using one(1,2) rest(1,2) by (intro Cons.IH)
      then show ?thesis unfolding eq using False log1 by auto
    qed
  qed
qed


lemma donorLoop_scan_inv:
  assumes st: "static m0 ms" and dis: "D \<inter> T = {}"
    and range: "\<forall>i\<in>D \<union> T. i < length (regions ms)" and t: "t \<in> T"
    and old: "\<forall>d\<in>D. \<forall>c\<in>U. c \<in> set (buildCanalMap (canals m0) d t) \<longrightarrow>
      (\<forall>w. waterSource (canals m0 ! c) = Some w \<longrightarrow> spent ms d w t)"
  shows "scan_inv m0 D T U ms t s \<Longrightarrow> set ds \<subseteq> D \<Longrightarrow> distinct ds \<Longrightarrow>
    \<forall>tr\<in>set (sc_log s). t_donor tr \<notin> set ds \<Longrightarrow>
    scan_inv m0 D T U ms t (donorLoop (buildCanalMap (canals m0)) t ds s)"
proof (induction ds arbitrary: s)
  case Nil
  then show ?case by simp
next
  case (Cons d ds)
  let ?cm = "buildCanalMap (canals m0)"
  let ?m = "sc_manager s"
  let ?avail = "safeSurplus (regions ?m ! d)"
  have d: "d \<in> D" and ds: "set ds \<subseteq> D" "distinct ds" "d \<notin> set ds"
    using Cons.prems(2,3) by auto
  have others: "\<forall>tr\<in>set (sc_log s). t_donor tr \<notin> set ds" using Cons.prems(4) by simp
  have skip: "scan_inv m0 D T U ms t (donorLoop ?cm t ds s)"
    using Cons.prems(1) ds(1,2) others by (rule Cons.IH)
  show ?case
  proof (cases "?avail \<le> kEpsilon \<or> ?cm d t = []")
    case True
    then show ?thesis using skip by (auto simp: Let_def)
  next
    case False
    let ?s1 = "canalLoop d t ?avail (?cm d t) s"
    have eq: "donorLoop ?cm t (d # ds) s =
        (if sc_deficit ?s1 \<le> kEpsilon then ?s1 else donorLoop ?cm t ds ?s1)"
      using False by (simp add: Let_def)
    have lat: "later D T ms ?m" and evs: "\<forall>tr\<in>set (sc_log s). scan_event m0 D U t tr"
      using Cons.prems(1) by (simp_all add: scan_inv_def)
    have dr: "d < length (regions ms)" and trange: "t < length (regions ms)"
      using range d t by auto
    have fresh: "\<forall>tr\<in>set (sc_log s). t_canal tr \<notin> set (?cm d t)"
    proof
      fix tr assume tr: "tr \<in> set (sc_log s)"
      then have "t_canal tr \<in> set (?cm (t_donor tr) t)" using evs by (simp add: scan_event_def)
      then have "sourceRegion (canals m0 ! t_canal tr) = t_donor tr"
        by (simp add: buildCanalMap_mem)
      moreover have "t_donor tr \<noteq> d" using Cons.prems(4) tr by auto
      ultimately show "t_canal tr \<notin> set (?cm d t)" by (simp add: buildCanalMap_mem)
    qed
    have clog: "\<forall>c\<in>set (?cm d t). c \<in> U \<longrightarrow>
        (\<forall>w. waterSource (canals m0 ! c) = Some w \<longrightarrow> clogged ?m w t)"
    proof (intro ballI impI allI)
      fix c w
      assume c: "c \<in> set (?cm d t)" "c \<in> U" and w: "waterSource (canals m0 ! c) = Some w"
      then have "spent ms d w t" using old d by blast
      then have "spent ?m d w t" using lat d dr t trange later_spent by blast
      then show "clogged ?m w t" using False by (simp add: spent_def)
    qed
    have "scan_inv m0 D T U ms t ?s1 \<and>
        (\<forall>tr\<in>set (sc_log ?s1). tr \<in> set (sc_log s) \<or> t_donor tr = d)"
      using st dis range d t Cons.prems(1) order_refl buildCanalMap_distinct subset_refl fresh clog
      by (rule canalLoop_scan_inv)
    then have inv1: "scan_inv m0 D T U ms t ?s1"
      and log1: "\<forall>tr\<in>set (sc_log ?s1). tr \<in> set (sc_log s) \<or> t_donor tr = d" by simp_all
    have others1: "\<forall>tr\<in>set (sc_log ?s1). t_donor tr \<notin> set ds"
      using log1 others ds(3) by auto
    have "scan_inv m0 D T U ms t (donorLoop ?cm t ds ?s1)"
      using inv1 ds(1,2) others1 by (rule Cons.IH)
    then show ?thesis unfolding eq using inv1 by simp
  qed
qed


lemma distinct_map_remove1: "distinct (map f xs) \<Longrightarrow> distinct (map f (remove1 x xs))"
proof (induction xs)
  case Nil
  then show ?case by simp
next
  case (Cons a xs)
  then show ?case using set_remove1_subset [of x xs] by auto
qed

lemma remove1_map_notin: "distinct (map f xs) \<Longrightarrow> x \<in> set xs \<Longrightarrow> f x \<notin> f ` set (remove1 x xs)"
proof (induction xs)
  case Nil
  then show ?case by simp
next
  case (Cons a xs)
  show ?case
  proof (cases "x = a")
    case True
    then show ?thesis using Cons.prems by simp
  next
    case False
    then have x: "x \<in> set xs" using Cons.prems by simp
    have "f a \<notin> f ` set xs" using Cons.prems(1) by simp
    then have "f x \<noteq> f a" using x by (metis imageI)
    moreover have "f x \<notin> f ` set (remove1 x xs)" using Cons x by simp
    ultimately show ?thesis using False by simp
  qed
qed

lemma distinct_map_append_fresh:
  "distinct (map f xs) \<Longrightarrow> distinct (map f ys) \<Longrightarrow> \<forall>y\<in>set ys. f y \<notin> f ` set xs \<Longrightarrow>
   distinct (map f (xs @ ys))"
  by (force simp: image_iff)

text \<open>The invariant of the greedy loop of an hour that starts in \<open>mh\<close>: a transfer whose
  target is still queued has left its canal spent.\<close>

definition hour_inv ::
  "AcequiaManager \<Rightarrow> nat set \<Rightarrow> nat set \<Rightarrow> AcequiaManager \<Rightarrow> Hour \<Rightarrow> bool" where
  "hour_inv m0 D T mh h \<longleftrightarrow>
     later D T mh (h_manager h) \<and>
     distinct (map t_canal (hourTransfers h)) \<and>
     (\<forall>tr\<in>set (hourTransfers h). t_donor tr \<in> D \<and> t_target tr \<in> T \<and>
        t_canal tr \<in> set (buildCanalMap (canals m0) (t_donor tr) (t_target tr)) \<and>
        waterSource (canals m0 ! t_canal tr) = Some (t_source tr)) \<and>
     (\<forall>tr\<in>set (hourTransfers h). t_target tr \<in> region ` set (h_needs h) \<longrightarrow>
        spent (h_manager h) (t_donor tr) (t_source tr) (t_target tr)) \<and>
     distinct (map region (h_needs h)) \<and> region ` set (h_needs h) \<subseteq> T"

lemma hourBody_hour_inv:
  assumes st: "static m0 mh" and dis: "D \<inter> T = {}"
    and range: "\<forall>i\<in>D \<union> T. i < length (regions mh)"
    and donors: "set donors = D" "distinct donors"
    and ne: "h_needs h \<noteq> []" and inv: "hour_inv m0 D T mh h"
  shows "hour_inv m0 D T mh (hourBody (buildCanalMap (canals m0)) donors h)"
proof -
  let ?cm = "buildCanalMap (canals m0)"
  let ?q = "h_needs h"
  let ?curr = "pq_top ?q"
  let ?t = "region ?curr"
  let ?ms = "h_manager h"
  let ?U = "t_canal ` set (hourTransfers h)"
  let ?init = "\<lparr>sc_manager = ?ms, sc_deficit = amount ?curr,
      sc_didTransfer = h_didTransfer h, sc_log = []\<rparr>"
  let ?s = "donorLoop ?cm ?t donors ?init"
  let ?q' = "if kEpsilon < sc_deficit ?s
      then pq_push \<lparr>region = ?t, amount = sc_deficit ?s\<rparr> (pq_pop ?q) else pq_pop ?q"
  let ?h' = "hourBody ?cm donors h"
  have h': "h_manager ?h' = sc_manager ?s" "h_needs ?h' = ?q'"
    "hourTransfers ?h' = hourTransfers h @ sc_log ?s"
    by (simp_all add: hourBody_def Let_def hourTransfers_def)
  have lat: "later D T mh ?ms" and dist: "distinct (map t_canal (hourTransfers h))"
    and evs: "\<forall>tr\<in>set (hourTransfers h). t_donor tr \<in> D \<and> t_target tr \<in> T \<and>
        t_canal tr \<in> set (?cm (t_donor tr) (t_target tr)) \<and>
        waterSource (canals m0 ! t_canal tr) = Some (t_source tr)"
    and sp: "\<forall>tr\<in>set (hourTransfers h). t_target tr \<in> region ` set ?q \<longrightarrow>
        spent ?ms (t_donor tr) (t_source tr) (t_target tr)"
    and qd: "distinct (map region ?q)" and qT: "region ` set ?q \<subseteq> T"
    using inv by (simp_all add: hour_inv_def)
  have curr: "?curr \<in> set ?q" using ne by (rule pq_top_mem)
  then have tq: "?t \<in> region ` set ?q" by simp
  then have t: "?t \<in> T" using qT by blast
  have len: "length (regions ?ms) = length (regions mh)"
    using static_length(1) [OF later_static [OF lat]] .
  have range_ms: "\<forall>i\<in>D \<union> T. i < length (regions ?ms)" using range len by simp
  have st_ms: "static m0 ?ms" using st later_static [OF lat] static_trans by blast
  have old: "\<forall>d\<in>D. \<forall>c\<in>?U. c \<in> set (?cm d ?t) \<longrightarrow>
      (\<forall>w. waterSource (canals m0 ! c) = Some w \<longrightarrow> spent ?ms d w ?t)"
  proof (intro ballI impI allI)
    fix d c w
    assume c: "c \<in> ?U" "c \<in> set (?cm d ?t)" and w: "waterSource (canals m0 ! c) = Some w"
    then obtain e where e: "e \<in> set (hourTransfers h)" "t_canal e = c" by auto
    have "c \<in> set (?cm (t_donor e) (t_target e))" "waterSource (canals m0 ! c) = Some (t_source e)"
      using evs e by auto
    then have "t_donor e = d" "t_target e = ?t" "t_source e = w"
      using c(2) w by (simp_all add: buildCanalMap_mem)
    then show "spent ?ms d w ?t" using sp e(1) tq by auto
  qed
  have "scan_inv m0 D T ?U ?ms ?t ?init" by (simp add: scan_inv_def)
  moreover have "set donors \<subseteq> D" "\<forall>tr\<in>set (sc_log ?init). t_donor tr \<notin> set donors"
    using donors by simp_all
  ultimately have "scan_inv m0 D T ?U ?ms ?t ?s"
    using donorLoop_scan_inv [OF st_ms dis range_ms t old] donors(2) by blast
  then have lat_s: "later D T ?ms (sc_manager ?s)"
    and dist_s: "distinct (map t_canal (sc_log ?s))"
    and evs_s: "\<forall>tr\<in>set (sc_log ?s). scan_event m0 D ?U ?t tr"
    and sp_s: "kEpsilon < sc_deficit ?s \<longrightarrow>
        (\<forall>tr\<in>set (sc_log ?s). spent (sc_manager ?s) (t_donor tr) (t_source tr) ?t)"
    by (simp_all add: scan_inv_def)
  have pop_sub: "region ` set (pq_pop ?q) \<subseteq> region ` set ?q"
    using pq_pop_subset [of ?q] by blast
  have pop_t: "?t \<notin> region ` set (pq_pop ?q)"
    unfolding pq_pop_def using qd curr by (rule remove1_map_notin)
  have pop_d: "distinct (map region (pq_pop ?q))"
    unfolding pq_pop_def using qd by (rule distinct_map_remove1)
  have q'_sub: "region ` set ?q' \<subseteq> region ` set ?q"
    using pop_sub tq by (auto simp: pq_push_def)
  have H1: "later D T mh (sc_manager ?s)" using lat lat_s later_trans by blast
  have "\<forall>e\<in>set (sc_log ?s). t_canal e \<notin> t_canal ` set (hourTransfers h)"
    using evs_s by (simp add: scan_event_def)
  with dist dist_s have H2: "distinct (map t_canal (hourTransfers h @ sc_log ?s))"
    by (rule distinct_map_append_fresh)
  have H3: "t_donor tr \<in> D \<and> t_target tr \<in> T \<and>
        t_canal tr \<in> set (?cm (t_donor tr) (t_target tr)) \<and>
        waterSource (canals m0 ! t_canal tr) = Some (t_source tr)"
    if "tr \<in> set (hourTransfers h @ sc_log ?s)" for tr
    using that evs evs_s t by (auto simp: scan_event_def)
  have H4: "spent (sc_manager ?s) (t_donor tr) (t_source tr) (t_target tr)"
    if tr: "tr \<in> set (hourTransfers h @ sc_log ?s)" and queued: "t_target tr \<in> region ` set ?q'"
    for tr
  proof (cases "tr \<in> set (sc_log ?s)")
    case True
    then have tt: "t_target tr = ?t" using evs_s by (simp add: scan_event_def)
    then have "kEpsilon < sc_deficit ?s" using queued pop_t by (auto split: if_splits)
    then show ?thesis using sp_s True tt by simp
  next
    case False
    then have e: "tr \<in> set (hourTransfers h)" using tr by simp
    have "t_target tr \<in> region ` set ?q" using queued q'_sub by blast
    then have "spent ?ms (t_donor tr) (t_source tr) (t_target tr)" using sp e by blast
    moreover have "t_donor tr \<in> D" "t_target tr \<in> T" using evs e by simp_all
    moreover have "t_donor tr < length (regions ?ms)" "t_target tr < length (regions ?ms)"
      using \<open>t_donor tr \<in> D\<close> \<open>t_target tr \<in> T\<close> range_ms by auto
    ultimately show ?thesis using lat_s later_spent by blast
  qed
  have H5: "distinct (map region ?q')" "region ` set ?q' \<subseteq> T"
    using pop_d pop_t q'_sub qT by (auto simp: pq_push_def)
  show ?thesis
    unfolding hour_inv_def h' using H1 H2 H3 H4 H5 by blast
qed


lemma hour_inv_loops [simp]: "hour_inv m0 D T mh (h\<lparr>h_loops := k\<rparr>) = hour_inv m0 D T mh h"
  by (simp add: hour_inv_def hourTransfers_def)

lemma hourLoop_hour_inv:
  assumes st: "static m0 mh" and dis: "D \<inter> T = {}"
    and range: "\<forall>i\<in>D \<union> T. i < length (regions mh)"
  shows "cm = buildCanalMap (canals m0) \<Longrightarrow> set donors = D \<Longrightarrow> distinct donors \<Longrightarrow>
    hour_inv m0 D T mh h \<Longrightarrow> hour_inv m0 D T mh (hourLoop cm donors h)"
proof (induction cm donors h rule: hourLoop.induct)
  case (1 cm donors h)
  show ?case
  proof (cases "h_needs h \<noteq> [] \<and> donors \<noteq> [] \<and> h_loops h < kMaxLoops")
    case True
    let ?hinc = "h\<lparr>h_loops := h_loops h + 1\<rparr>"
    let ?hnext = "hourBody cm donors ?hinc"
    have eq: "hourLoop cm donors h = hourLoop cm donors ?hnext"
      using True by (subst hourLoop.simps) simp
    have c: "h_needs h \<noteq> [] \<and> donors \<noteq> []" "h_loops h < kMaxLoops" using True by simp_all
    have "h_needs ?hinc \<noteq> []" "hour_inv m0 D T mh ?hinc" using True "1.prems"(4) by simp_all
    then have "hour_inv m0 D T mh ?hnext"
      unfolding "1.prems"(1) using st dis range "1.prems"(2,3) hourBody_hour_inv by blast
    then show ?thesis
      unfolding eq using c "1.prems"(1,2,3) by (intro "1.IH")
  next
    case False
    then have "hourLoop cm donors h = h \<or> hourLoop cm donors h = h\<lparr>h_loops := h_loops h + 1\<rparr>"
      by (subst (1 2) hourLoop.simps) auto
    then show ?thesis using "1.prems"(4) by auto
  qed
qed

lemma runHour_distinct_canals:
  assumes "static m0 m"
  shows "distinct (map t_canal (hourTransfers (runHour (buildCanalMap (canals m0)) m)))"
proof -
  let ?D = "set (hourDonors m)"
  let ?T = "region ` set (hourNeeds m)"
  let ?mh = "hourStart m"
  let ?init = "\<lparr>h_needs = hourNeeds m, h_manager = ?mh, h_didTransfer = False,
      h_loops = 0, h_iterations = []\<rparr>"
  have st: "static m0 ?mh" using assms static_hourStart static_trans by blast
  have dis: "?D \<inter> ?T = {}" using hourDonors_not_needs [of _ m] by auto
  have range: "\<forall>i\<in>?D \<union> ?T. i < length (regions ?mh)"
    using hourDonors_range [of _ m] hourNeeds_range [of _ m] by auto
  have "hour_inv m0 ?D ?T ?mh ?init"
    by (simp add: hour_inv_def hourTransfers_def hourNeeds_distinct)
  then have "hour_inv m0 ?D ?T ?mh (hourLoop (buildCanalMap (canals m0)) (hourDonors m) ?init)"
    using hourLoop_hour_inv [OF st dis range refl refl hourDonors_distinct] by blast
  then show ?thesis by (simp add: hour_inv_def runHour_def Let_def)
qed

text \<open>With real numbers, no canal carries two transfers in one hour of a run.\<close>

lemma solveProblems_distinct_canals:
  "\<forall>h\<in>set (r_hours (solveProblems solved m)). distinct (map t_canal (hourTransfers h))"
proof -
  have "static m (r_manager \<lparr>r_manager = m, r_hours = []\<rparr>)"
    "\<forall>h\<in>set (r_hours \<lparr>r_manager = m, r_hours = []\<rparr>). distinct (map t_canal (hourTransfers h))"
    by simp_all
  then have "static m (r_manager (solveProblems solved m)) \<and>
      (\<forall>h\<in>set (r_hours (solveProblems solved m)). distinct (map t_canal (hourTransfers h)))"
    unfolding solveProblems_def
  proof (rule mainLoop_rule)
    fix mh assume "static m mh"
    then show "distinct (map t_canal (hourTransfers (runHour (buildCanalMap (canals m)) mh))) \<and>
        static m (h_manager (runHour (buildCanalMap (canals m)) mh)) \<and>
        static m (nexthour (h_manager (runHour (buildCanalMap (canals m)) mh)))"
      using runHour_distinct_canals static_hour_step
        static_trans [OF _ frame_static [OF frame_runHour]] by blast
  qed
  then show ?thesis by simp
qed

section \<open>The loops of one hour in binary64 arithmetic\<close>

text \<open>
  The definitions above compute with real numbers. This section repeats the loops of one
  hour with the arithmetic of the C++ \<^verbatim>\<open>double\<close>: every addition, subtraction,
  multiplication and division is rounded to the nearest binary64 number, ties to even,
  and the literals \<^verbatim>\<open>1e-3\<close> and \<^verbatim>\<open>0.10\<close> are the binary64 numbers nearest to them.
  Overflow and subnormal numbers are left out: \<open>binary64\<close> rounds to 53 significant bits
  at every magnitude. Comparisons, \<^verbatim>\<open>std::max\<close> and \<^verbatim>\<open>std::min\<close> are exact. The
  definitions with the suffix \<open>_d\<close> are the definitions of the same name above, with
  \<open>binary64\<close> around each arithmetic operation of the source.
\<close>

text \<open>\<open>pow2 k\<close> is 2 to the power \<open>k\<close>; \<open>log2floor n\<close> is the binary logarithm of the integer
  \<open>n\<close>, rounded down; \<open>exponent x\<close> is the \<open>e\<close> with \<open>2^e \<le> |x| < 2^(e+1)\<close>.\<close>

definition pow2 :: "int \<Rightarrow> real" where
  "pow2 k = (if 0 \<le> k then 2 ^ nat k else 1 / 2 ^ nat (- k))"

function log2floor :: "int \<Rightarrow> int" where
  "log2floor n = (if n < 2 then 0 else log2floor (n div 2) + 1)"
  by pat_completeness auto
termination
  by (relation "measure nat") auto

declare log2floor.simps [simp del]

definition exponent :: "real \<Rightarrow> int" where
  "exponent x =
     (if 1 \<le> \<bar>x\<bar> then log2floor \<lfloor>\<bar>x\<bar>\<rfloor>
      else - (log2floor (\<lceil>1 / \<bar>x\<bar>\<rceil> - 1) + 1))"

definition roundEven :: "real \<Rightarrow> int" where
  "roundEven y =
     (let f = \<lfloor>y\<rfloor>; d = y - of_int f
      in if d < 1 / 2 then f else if 1 / 2 < d then f + 1 else if even f then f else f + 1)"

definition binary64 :: "real \<Rightarrow> real" where
  "binary64 x =
     (if x = 0 then 0
      else let u = pow2 (exponent x - 52) in of_int (roundEven (x / u)) * u)"

lemma binary64_examples:
  "binary64 (1 / 10) = 3602879701896397 / 36028797018963968"
  "binary64 (1 / 1000) = 1152921504606847 / 1152921504606846976"
  "binary64 (1 / 2) = 1 / 2"
  "binary64 20000000000000000 = 20000000000000000"
  "binary64 (15999999999999996 + 1 / 2) = 15999999999999996"
  "binary64 (15999999999999997) = 15999999999999996"
  "binary64 (15999999999999999) = 16000000000000000"
  "binary64 (- (5 / 2)) = - (5 / 2)"
  "binary64 (9007199254740993) = 9007199254740992"
  "binary64 (9007199254740995) = 9007199254740996"
  by code_simp+

text \<open>\<open>exponent x\<close> is the binary exponent of \<open>x\<close>, \<open>roundEven\<close> moves by at most one half, and so
  \<open>binary64 x\<close> is within half a unit in the last place of \<open>x\<close>.\<close>

lemma pow2_pos: "0 < pow2 k"
  by (simp add: pow2_def)

lemma pow2_Suc: "pow2 (k + 1) = 2 * pow2 k"
proof (cases "0 \<le> k")
  case True
  then show ?thesis by (simp add: pow2_def nat_add_distrib)
next
  case False
  then have "nat (- k) = Suc (nat (- (k + 1)))" by simp
  then show ?thesis using False by (simp add: pow2_def)
qed

lemma pow2_nat: "0 \<le> k \<Longrightarrow> pow2 k = 2 ^ nat k"
  by (simp add: pow2_def)

lemma pow2_neg: "pow2 (- k) = 1 / pow2 k"
  by (cases "k = 0") (auto simp: pow2_def)

lemma log2floor_bounds:
  "1 \<le> n \<Longrightarrow> 0 \<le> log2floor n \<and> 2 ^ nat (log2floor n) \<le> n \<and> n < 2 * 2 ^ nat (log2floor n)"
proof (induction n rule: log2floor.induct)
  case (1 n)
  show ?case
  proof (cases "n < 2")
    case True
    then have "n = 1" using "1.prems" by simp
    then show ?thesis by (simp add: log2floor.simps)
  next
    case False
    let ?k = "log2floor (n div 2)"
    have ih: "0 \<le> ?k \<and> 2 ^ nat ?k \<le> n div 2 \<and> n div 2 < 2 * 2 ^ nat ?k"
      using False by (intro "1.IH") simp_all
    have eq: "log2floor n = ?k + 1" using False by (subst log2floor.simps) simp
    have suc: "nat (?k + 1) = Suc (nat ?k)" using ih by (simp add: nat_add_distrib)
    define p :: int where "p = 2 ^ nat ?k"
    have "p \<le> n div 2" "n div 2 < 2 * p" using ih by (simp_all add: p_def)
    then have "2 * p \<le> n" "n < 2 * (2 * p)" by linarith+
    then show ?thesis unfolding eq suc using ih by (simp add: p_def)
  qed
qed

lemma exponent_bounds:
  assumes "x \<noteq> 0"
  shows "pow2 (exponent x) \<le> \<bar>x\<bar> \<and> \<bar>x\<bar> < pow2 (exponent x + 1)"
proof (cases "1 \<le> \<bar>x\<bar>")
  case True
  let ?n = "\<lfloor>\<bar>x\<bar>\<rfloor>"
  have n: "1 \<le> ?n" using True by simp
  note b = log2floor_bounds [OF n]
  have e: "exponent x = log2floor ?n" using True by (simp add: exponent_def)
  have "real_of_int (2 ^ nat (log2floor ?n)) \<le> real_of_int ?n" using b by linarith
  moreover have "real_of_int ?n \<le> \<bar>x\<bar>" by (rule of_int_floor_le)
  moreover have "real_of_int (2 ^ nat (log2floor ?n)) = 2 ^ nat (log2floor ?n)" by simp
  ultimately have "2 ^ nat (log2floor ?n) \<le> \<bar>x\<bar>" by linarith
  then have lo: "pow2 (exponent x) \<le> \<bar>x\<bar>"
    unfolding e using b by (simp add: pow2_nat)
  have "?n + 1 \<le> 2 * 2 ^ nat (log2floor ?n)" using b by simp
  then have "real_of_int (?n + 1) \<le> real_of_int (2 * 2 ^ nat (log2floor ?n))" by linarith
  moreover have "\<bar>x\<bar> < real_of_int (?n + 1)" by linarith
  moreover have "real_of_int (2 * 2 ^ nat (log2floor ?n)) = 2 * 2 ^ nat (log2floor ?n)" by simp
  ultimately have "\<bar>x\<bar> < 2 * 2 ^ nat (log2floor ?n)" by linarith
  then have "\<bar>x\<bar> < 2 * pow2 (exponent x)"
    unfolding e using b by (simp add: pow2_nat)
  then show ?thesis using lo by (simp add: pow2_Suc)
next
  case False
  let ?y = "1 / \<bar>x\<bar>"
  let ?n = "\<lceil>?y\<rceil> - 1"
  have xpos: "0 < \<bar>x\<bar>" using assms by simp
  have y: "1 < ?y" using False xpos by simp
  then have n: "1 \<le> ?n" by linarith
  note b = log2floor_bounds [OF n]
  let ?k = "log2floor ?n"
  have e: "exponent x = - (?k + 1)" using False by (simp add: exponent_def)
  have "real_of_int (2 ^ nat ?k) \<le> real_of_int ?n" using b by linarith
  moreover have "real_of_int ?n < ?y" by linarith
  moreover have "real_of_int (2 ^ nat ?k) = 2 ^ nat ?k" by simp
  ultimately have "2 ^ nat ?k < ?y" by linarith
  then have lo: "pow2 ?k < ?y" using b by (simp add: pow2_nat)
  have "?n + 1 \<le> 2 * 2 ^ nat ?k" using b by simp
  then have "real_of_int (?n + 1) \<le> real_of_int (2 * 2 ^ nat ?k)" by linarith
  moreover have "?y \<le> real_of_int (?n + 1)" by linarith
  moreover have "real_of_int (2 * 2 ^ nat ?k) = 2 * 2 ^ nat ?k" by simp
  ultimately have "?y \<le> 2 * 2 ^ nat ?k" by linarith
  then have hi: "?y \<le> pow2 (?k + 1)" using b by (simp add: pow2_nat pow2_Suc)
  have "\<bar>x\<bar> < 1 / pow2 ?k"
    using lo xpos pow2_pos [of ?k] by (simp add: field_simps)
  moreover have "1 / pow2 (?k + 1) \<le> \<bar>x\<bar>"
    using hi xpos pow2_pos [of "?k + 1"] by (simp add: field_simps)
  moreover have "pow2 (exponent x) = 1 / pow2 (?k + 1)" unfolding e by (rule pow2_neg)
  moreover have "pow2 (exponent x + 1) = 1 / pow2 ?k"
    unfolding e using pow2_neg [of ?k] by simp
  ultimately show ?thesis by simp
qed

lemma roundEven_near: "\<bar>real_of_int (roundEven y) - y\<bar> \<le> 1 / 2"
  unfolding roundEven_def Let_def by (auto simp: abs_le_iff; linarith)

lemma binary64_near:
  "\<bar>binary64 x - x\<bar> \<le> pow2 (exponent x - 52) / 2"
proof (cases "x = 0")
  case True
  then show ?thesis using pow2_pos [of "exponent x - 52"] by (simp add: binary64_def)
next
  case False
  let ?u = "pow2 (exponent x - 52)"
  have u: "0 < ?u" by (rule pow2_pos)
  have "binary64 x - x = (real_of_int (roundEven (x / ?u)) - x / ?u) * ?u"
    using False u by (simp add: binary64_def Let_def field_simps)
  then have "\<bar>binary64 x - x\<bar> = \<bar>real_of_int (roundEven (x / ?u)) - x / ?u\<bar> * ?u"
    using u by (simp add: abs_mult)
  also have "\<dots> \<le> 1 / 2 * ?u"
    using roundEven_near [of "x / ?u"] u by (intro mult_right_mono) simp_all
  finally show ?thesis by simp
qed

definition kEpsilon_d :: real where
  "kEpsilon_d = binary64 (1 / 1000)"

definition kSafetyMargin_d :: real where
  "kSafetyMargin_d = binary64 (1 / 10)"

definition safeSurplus_d :: "Region \<Rightarrow> real" where
  "safeSurplus_d r =
     (let extra = binary64 (waterLevel r - waterNeed r);
          buffer = binary64 (kSafetyMargin_d * waterCapacity r)
      in max 0 (binary64 (extra - buffer)))"

definition getDeficit_d :: "Region \<Rightarrow> real" where
  "getDeficit_d r = max 0 (binary64 (waterNeed r - waterLevel r))"

text \<open>Modelled from the spec: the \<^verbatim>\<open>updateWaterLevel\<close> methods and \<^verbatim>\<open>setFlowRate\<close> of
  \<^verbatim>\<open>acequia_manager.h\<close> as above; the level is a \<^verbatim>\<open>double\<close>, so the sum is rounded.\<close>

definition updateWaterLevel_d :: "real \<Rightarrow> Region \<Rightarrow> Region" where
  "updateWaterLevel_d change r = r\<lparr>waterLevel := binary64 (waterLevel r + change)\<rparr>"

definition ws_updateWaterLevel_d :: "real \<Rightarrow> WaterSource \<Rightarrow> WaterSource" where
  "ws_updateWaterLevel_d change w = w\<lparr>ws_waterLevel := binary64 (ws_waterLevel w + change)\<rparr>"

definition executeTransfer_d :: "nat \<Rightarrow> nat \<Rightarrow> nat \<Rightarrow> nat \<Rightarrow> real \<Rightarrow> AcequiaManager \<Rightarrow> AcequiaManager" where
  "executeTransfer_d canal ws src target xfer m =
     (let m1 = m\<lparr>canals := (canals m)[canal := toggleOpen True (canals m ! canal)]\<rparr>;
          m2 = m1\<lparr>canals := (canals m1)[canal := setFlowRate (binary64 (xfer / 3600)) (canals m1 ! canal)]\<rparr>;
          m3 = m2\<lparr>sources := (sources m2)(ws := ws_updateWaterLevel_d (- xfer) (sources m2 ws))\<rparr>;
          m4 = m3\<lparr>regions := (regions m3)[src := updateWaterLevel_d (- xfer) (regions m3 ! src)]\<rparr>
      in m4\<lparr>regions := (regions m4)[target := updateWaterLevel_d xfer (regions m4 ! target)]\<rparr>)"

definition canalXfer_d :: "AcequiaManager \<Rightarrow> nat \<Rightarrow> real \<Rightarrow> real \<Rightarrow> nat \<Rightarrow> (nat \<times> real) option" where
  "canalXfer_d m target deficit avail canal =
     (case waterSource (canals m ! canal) of
        None \<Rightarrow> None
      | Some ws \<Rightarrow>
          if ws_waterLevel (sources m ws) \<le> kEpsilon_d then None
          else
            let space = binary64 (waterCapacity (regions m ! target) - waterLevel (regions m ! target));
                xfer = min deficit (min avail (min (ws_waterLevel (sources m ws)) space))
            in if xfer \<le> kEpsilon_d then None else Some (ws, xfer))"

definition scanTransfer_d :: "nat \<Rightarrow> nat \<Rightarrow> real \<Rightarrow> nat \<Rightarrow> nat \<Rightarrow> real \<Rightarrow> Scan \<Rightarrow> Scan" where
  "scanTransfer_d src target avail canal ws xfer s =
     (let m' = executeTransfer_d canal ws src target xfer (sc_manager s)
      in \<lparr>sc_manager = m',
          sc_deficit = binary64 (sc_deficit s - xfer),
          sc_didTransfer = True,
          sc_log = sc_log s @
            [\<lparr>t_canal = canal, t_source = ws, t_donor = src, t_target = target,
              t_deficit = sc_deficit s, t_avail = avail, t_amount = xfer,
              t_before = sc_manager s, t_after = m'\<rparr>]\<rparr>)"

fun canalLoop_d :: "nat \<Rightarrow> nat \<Rightarrow> real \<Rightarrow> nat list \<Rightarrow> Scan \<Rightarrow> Scan" where
  "canalLoop_d src target avail [] s = s"
| "canalLoop_d src target avail (canal # rest) s =
     (case canalXfer_d (sc_manager s) target (sc_deficit s) avail canal of
        None \<Rightarrow> canalLoop_d src target avail rest s
      | Some (ws, xfer) \<Rightarrow>
          let s' = scanTransfer_d src target avail canal ws xfer s
          in if sc_deficit s' \<le> kEpsilon_d then s' else canalLoop_d src target avail rest s')"

fun donorLoop_d :: "(nat \<Rightarrow> nat \<Rightarrow> nat list) \<Rightarrow> nat \<Rightarrow> nat list \<Rightarrow> Scan \<Rightarrow> Scan" where
  "donorLoop_d cm target [] s = s"
| "donorLoop_d cm target (src # rest) s =
     (let avail = safeSurplus_d (regions (sc_manager s) ! src)
      in if avail \<le> kEpsilon_d then donorLoop_d cm target rest s
         else if cm src target = [] then donorLoop_d cm target rest s
         else
           let s' = canalLoop_d src target avail (cm src target) s
           in if sc_deficit s' \<le> kEpsilon_d then s' else donorLoop_d cm target rest s')"

definition hourBody_d :: "(nat \<Rightarrow> nat \<Rightarrow> nat list) \<Rightarrow> nat list \<Rightarrow> Hour \<Rightarrow> Hour" where
  "hourBody_d cm donors h =
     (let curr = pq_top (h_needs h);
          q = pq_pop (h_needs h);
          target = region curr;
          s = donorLoop_d cm target donors
                \<lparr>sc_manager = h_manager h, sc_deficit = amount curr,
                 sc_didTransfer = h_didTransfer h, sc_log = []\<rparr>;
          q' = (if sc_deficit s > kEpsilon_d
                then pq_push \<lparr>region = target, amount = sc_deficit s\<rparr> q else q)
      in h\<lparr>h_needs := q', h_manager := sc_manager s, h_didTransfer := sc_didTransfer s,
           h_iterations := h_iterations h @
             [\<lparr>it_queue = h_needs h, it_popped = curr, it_transfers = sc_log s\<rparr>]\<rparr>)"

lemma hourBody_d_loops [simp]: "h_loops (hourBody_d cm donors h) = h_loops h"
  by (simp add: hourBody_d_def Let_def)

function hourLoop_d :: "(nat \<Rightarrow> nat \<Rightarrow> nat list) \<Rightarrow> nat list \<Rightarrow> Hour \<Rightarrow> Hour" where
  "hourLoop_d cm donors h =
     (if h_needs h \<noteq> [] \<and> donors \<noteq> [] then
        (if h_loops h < kMaxLoops
         then hourLoop_d cm donors (hourBody_d cm donors (h\<lparr>h_loops := h_loops h + 1\<rparr>))
         else h\<lparr>h_loops := h_loops h + 1\<rparr>)
      else h)"
  by pat_completeness auto
termination
  by (relation "measure (\<lambda>(cm, donors, h). nat (kMaxLoops - h_loops h))") auto

declare hourLoop_d.simps [simp del]

fun gather_d :: "Region list \<Rightarrow> nat list \<Rightarrow> Need list \<times> nat list \<Rightarrow> Need list \<times> nat list" where
  "gather_d rs [] acc = acc"
| "gather_d rs (r # rest) (needs, donors) =
     (let d = getDeficit_d (rs ! r)
      in if d > kEpsilon_d then gather_d rs rest (pq_push \<lparr>region = r, amount = d\<rparr> needs, donors)
         else
           let s = safeSurplus_d (rs ! r)
           in if s > kEpsilon_d then gather_d rs rest (needs, donors @ [r])
              else gather_d rs rest (needs, donors))"

definition hourNeeds_d :: "AcequiaManager \<Rightarrow> Need list" where
  "hourNeeds_d m = fst (gather_d (regions m) [0..<length (regions m)] ([], []))"

definition hourDonors_d :: "AcequiaManager \<Rightarrow> nat list" where
  "hourDonors_d m = snd (gather_d (regions m) [0..<length (regions m)] ([], []))"

definition runHour_d :: "(nat \<Rightarrow> nat \<Rightarrow> nat list) \<Rightarrow> AcequiaManager \<Rightarrow> Hour" where
  "runHour_d cm m =
     (let m1 = hourStart m
      in hourLoop_d cm (hourDonors_d m1)
           \<lparr>h_needs = hourNeeds_d m1, h_manager = m1, h_didTransfer = False,
            h_loops = 0, h_iterations = []\<rparr>)"

lemma hourTransfers_hourBody_d:
  "hourTransfers (hourBody_d cm donors h) =
     hourTransfers h @ sc_log (donorLoop_d cm (region (pq_top (h_needs h))) donors
       \<lparr>sc_manager = h_manager h, sc_deficit = amount (pq_top (h_needs h)),
        sc_didTransfer = h_didTransfer h, sc_log = []\<rparr>)"
  by (simp add: hourBody_d_def Let_def hourTransfers_def)

lemma hourLoop_d_transfers:
  "\<exists>more. hourTransfers (hourLoop_d cm donors h) = hourTransfers h @ more"
proof (induction cm donors h rule: hourLoop_d.induct)
  case (1 cm donors h)
  show ?case
  proof (cases "h_needs h \<noteq> [] \<and> donors \<noteq> [] \<and> h_loops h < kMaxLoops")
    case True
    let ?hinc = "h\<lparr>h_loops := h_loops h + 1\<rparr>"
    let ?hnext = "hourBody_d cm donors ?hinc"
    have eq: "hourLoop_d cm donors h = hourLoop_d cm donors ?hnext"
      using True by (subst hourLoop_d.simps) simp
    have c: "h_needs h \<noteq> [] \<and> donors \<noteq> []" "h_loops h < kMaxLoops" using True by simp_all
    from c have "\<exists>more. hourTransfers (hourLoop_d cm donors ?hnext) = hourTransfers ?hnext @ more"
      by (rule "1.IH")
    moreover have "\<exists>new. hourTransfers ?hnext = hourTransfers h @ new"
      by (simp add: hourTransfers_hourBody_d) (simp add: hourTransfers_def)
    ultimately show ?thesis unfolding eq by auto
  next
    case False
    then have "hourTransfers (hourLoop_d cm donors h) = hourTransfers h"
      by (subst hourLoop_d.simps) (auto simp: hourTransfers_def)
    then show ?thesis by simp
  qed
qed

text \<open>Within one pass of the loop body the canals are tried one after the other, each
  once, and different donors have different canals; this needs no arithmetic.\<close>

lemma canalLoop_d_log:
  "distinct cs \<Longrightarrow>
   \<exists>new. sc_log (canalLoop_d d t avail cs s) = sc_log s @ new \<and>
     distinct (map t_canal new) \<and> (\<forall>tr\<in>set new. t_canal tr \<in> set cs \<and> t_donor tr = d)"
proof (induction cs arbitrary: s)
  case Nil
  then show ?case by simp
next
  case (Cons c cs)
  then have dcs: "distinct cs" and c: "c \<notin> set cs" by simp_all
  show ?case
  proof (cases "canalXfer_d (sc_manager s) t (sc_deficit s) avail c")
    case None
    then have eq: "canalLoop_d d t avail (c # cs) s = canalLoop_d d t avail cs s" by simp
    obtain new where "sc_log (canalLoop_d d t avail cs s) = sc_log s @ new"
      "distinct (map t_canal new)" "\<forall>tr\<in>set new. t_canal tr \<in> set cs \<and> t_donor tr = d"
      using Cons.IH [OF dcs] by blast
    then show ?thesis unfolding eq by (intro exI [of _ new]) simp
  next
    case (Some p)
    obtain w x where p: "p = (w, x)" by (cases p)
    let ?s1 = "scanTransfer_d d t avail c w x s"
    obtain tr where log1: "sc_log ?s1 = sc_log s @ [tr]" and tr: "t_canal tr = c" "t_donor tr = d"
      by (simp add: scanTransfer_d_def Let_def)
    have eq: "canalLoop_d d t avail (c # cs) s =
        (if sc_deficit ?s1 \<le> kEpsilon_d then ?s1 else canalLoop_d d t avail cs ?s1)"
      using Some p by (simp add: Let_def)
    obtain new where new: "sc_log (canalLoop_d d t avail cs ?s1) = sc_log ?s1 @ new"
      "distinct (map t_canal new)" "\<forall>tr\<in>set new. t_canal tr \<in> set cs \<and> t_donor tr = d"
      using Cons.IH [OF dcs] by blast
    show ?thesis
    proof (cases "sc_deficit ?s1 \<le> kEpsilon_d")
      case True
      then show ?thesis unfolding eq using log1 tr by (intro exI [of _ "[tr]"]) simp
    next
      case False
      have "distinct (map t_canal (tr # new))" using new(2,3) tr(1) c by auto
      then show ?thesis
        unfolding eq using False new(1,3) log1 tr by (intro exI [of _ "tr # new"]) simp
    qed
  qed
qed

lemma donorLoop_d_log:
  "distinct ds \<Longrightarrow>
   \<exists>new. sc_log (donorLoop_d (buildCanalMap cs) t ds s) = sc_log s @ new \<and>
     distinct (map t_canal new) \<and>
     (\<forall>tr\<in>set new. t_donor tr \<in> set ds \<and> t_canal tr \<in> set (buildCanalMap cs (t_donor tr) t))"
proof (induction ds arbitrary: s)
  case Nil
  then show ?case by simp
next
  case (Cons d ds)
  let ?cm = "buildCanalMap cs"
  let ?avail = "safeSurplus_d (regions (sc_manager s) ! d)"
  have dds: "distinct ds" and d: "d \<notin> set ds" using Cons.prems by simp_all
  have skip: "\<exists>new. sc_log (donorLoop_d ?cm t ds s) = sc_log s @ new \<and>
      distinct (map t_canal new) \<and>
      (\<forall>tr\<in>set new. t_donor tr \<in> set (d # ds) \<and> t_canal tr \<in> set (?cm (t_donor tr) t))"
    using Cons.IH [OF dds, of s] by auto
  show ?case
  proof (cases "?avail \<le> kEpsilon_d \<or> ?cm d t = []")
    case True
    then show ?thesis using skip by (auto simp: Let_def)
  next
    case False
    let ?s1 = "canalLoop_d d t ?avail (?cm d t) s"
    have eq: "donorLoop_d ?cm t (d # ds) s =
        (if sc_deficit ?s1 \<le> kEpsilon_d then ?s1 else donorLoop_d ?cm t ds ?s1)"
      using False by (simp add: Let_def)
    obtain new1 where new1: "sc_log ?s1 = sc_log s @ new1" "distinct (map t_canal new1)"
      "\<forall>tr\<in>set new1. t_canal tr \<in> set (?cm d t) \<and> t_donor tr = d"
      using canalLoop_d_log [OF buildCanalMap_distinct] by blast
    obtain new2 where new2: "sc_log (donorLoop_d ?cm t ds ?s1) = sc_log ?s1 @ new2"
      "distinct (map t_canal new2)"
      "\<forall>tr\<in>set new2. t_donor tr \<in> set ds \<and> t_canal tr \<in> set (?cm (t_donor tr) t)"
      using Cons.IH [OF dds] by blast
    show ?thesis
    proof (cases "sc_deficit ?s1 \<le> kEpsilon_d")
      case True
      then show ?thesis unfolding eq using new1 by (intro exI [of _ new1]) simp
    next
      case False
      have "\<forall>tr\<in>set new2. t_canal tr \<notin> t_canal ` set new1"
      proof
        fix tr assume tr: "tr \<in> set new2"
        then have "sourceRegion (cs ! t_canal tr) = t_donor tr" "t_donor tr \<noteq> d"
          using new2(3) d by (auto simp: buildCanalMap_mem)
        moreover have "sourceRegion (cs ! t_canal e) = d" if "e \<in> set new1" for e
          using new1(3) that by (simp add: buildCanalMap_mem)
        ultimately show "t_canal tr \<notin> t_canal ` set new1" by auto
      qed
      with new1(2) new2(2) have "distinct (map t_canal (new1 @ new2))"
        by (rule distinct_map_append_fresh)
      then show ?thesis
        unfolding eq using False new1(1,3) new2(1,3) by (intro exI [of _ "new1 @ new2"]) auto
    qed
  qed
qed

lemma gather_d_donors:
  "snd (gather_d rs is (ns, ds)) =
     ds @ filter (\<lambda>i. \<not> kEpsilon_d < getDeficit_d (rs ! i) \<and> kEpsilon_d < safeSurplus_d (rs ! i)) is"
  by (induction "is" arbitrary: ns ds) (simp_all add: Let_def)

lemma hourDonors_d_distinct: "distinct (hourDonors_d m)"
  by (simp add: hourDonors_d_def gather_d_donors)

lemma hourBody_d_pass:
  assumes "distinct donors"
  shows "\<exists>it. h_iterations (hourBody_d (buildCanalMap cs) donors h) = h_iterations h @ [it] \<and>
    distinct (map t_canal (it_transfers it))"
proof -
  let ?init = "\<lparr>sc_manager = h_manager h, sc_deficit = amount (pq_top (h_needs h)),
      sc_didTransfer = h_didTransfer h, sc_log = []\<rparr>"
  obtain new where "sc_log (donorLoop_d (buildCanalMap cs) (region (pq_top (h_needs h))) donors ?init) =
      sc_log ?init @ new" "distinct (map t_canal new)"
    using donorLoop_d_log [OF assms] by blast
  then show ?thesis by (simp add: hourBody_d_def Let_def)
qed

lemma hourLoop_d_passes:
  "distinct donors \<Longrightarrow> cm = buildCanalMap cs \<Longrightarrow>
   \<forall>it\<in>set (h_iterations h). distinct (map t_canal (it_transfers it)) \<Longrightarrow>
   \<forall>it\<in>set (h_iterations (hourLoop_d cm donors h)). distinct (map t_canal (it_transfers it))"
proof (induction cm donors h rule: hourLoop_d.induct)
  case (1 cm donors h)
  show ?case
  proof (cases "h_needs h \<noteq> [] \<and> donors \<noteq> [] \<and> h_loops h < kMaxLoops")
    case True
    let ?hinc = "h\<lparr>h_loops := h_loops h + 1\<rparr>"
    let ?hnext = "hourBody_d cm donors ?hinc"
    have eq: "hourLoop_d cm donors h = hourLoop_d cm donors ?hnext"
      using True by (subst hourLoop_d.simps) simp
    have c: "h_needs h \<noteq> [] \<and> donors \<noteq> []" "h_loops h < kMaxLoops" using True by simp_all
    obtain it where "h_iterations ?hnext = h_iterations ?hinc @ [it]"
      "distinct (map t_canal (it_transfers it))"
      unfolding "1.prems"(2) using hourBody_d_pass [OF "1.prems"(1)] by blast
    then have "\<forall>it\<in>set (h_iterations ?hnext). distinct (map t_canal (it_transfers it))"
      using "1.prems"(3) by simp
    with c "1.prems"(1,2) show ?thesis unfolding eq by (intro "1.IH")
  next
    case False
    then have "h_iterations (hourLoop_d cm donors h) = h_iterations h"
      by (subst hourLoop_d.simps) auto
    then show ?thesis using "1.prems"(3) by simp
  qed
qed

lemma runHour_d_passes:
  "\<forall>it\<in>set (h_iterations (runHour_d (buildCanalMap cs) m)). distinct (map t_canal (it_transfers it))"
  unfolding runHour_d_def Let_def
  by (rule hourLoop_d_passes [OF hourDonors_d_distinct refl]) simp

text \<open>
  Claim C9, as amended. When the arithmetic is exact, no canal carries two transfers in
  one hour: in every hour that a run of \<open>solveProblems\<close> executes, the canals of the hour's
  transfers, each of which opens its canal and sets its flow rate from the amount, are
  pairwise different. In binary64 arithmetic this holds for every single pass of the
  greedy loop (the scan of the donors for one popped need), in every hour and for every
  list of canals. (The reset at the start of the hour, which sets every flow rate to 0,
  is not a transfer and is not in the log.)
\<close>

theorem canal_once_per_hour:
  "(\<forall>h\<in>set (r_hours (solveProblems solved m)). distinct (map t_canal (hourTransfers h))) \<and>
   (\<forall>it\<in>set (h_iterations (runHour_d (buildCanalMap cs) mh)).
      distinct (map t_canal (it_transfers it)))"
  using solveProblems_distinct_canals runHour_d_passes by blast

lemma parallel_run: "length (r_hours (solveProblems (\<lambda>m'. False) parallel_manager)) = 2"
  by code_simp

lemma parallel_run_d:
  "map (\<lambda>it. map t_canal (it_transfers it))
     (h_iterations (runHour_d (buildCanalMap (canals parallel_manager)) parallel_manager)) = [[0, 1, 2]]"
  by code_simp

theorem canal_once_per_hour_witness:
  "first_hour parallel_manager \<in> set (r_hours (solveProblems (\<lambda>m'. False) parallel_manager)) \<and>
   map t_canal (hourTransfers (first_hour parallel_manager)) = [0, 1, 2] \<and>
   distinct (map t_canal (hourTransfers (first_hour parallel_manager))) \<and>
   hd (h_iterations (runHour_d (buildCanalMap (canals parallel_manager)) parallel_manager)) \<in>
     set (h_iterations (runHour_d (buildCanalMap (canals parallel_manager)) parallel_manager)) \<and>
   map t_canal (it_transfers (hd (h_iterations
     (runHour_d (buildCanalMap (canals parallel_manager)) parallel_manager)))) = [0, 1, 2] \<and>
   distinct (map t_canal (it_transfers (hd (h_iterations
     (runHour_d (buildCanalMap (canals parallel_manager)) parallel_manager)))))"
proof -
  have a: "first_hour parallel_manager \<in> set (r_hours (solveProblems (\<lambda>m'. False) parallel_manager))"
    unfolding first_hour_def using parallel_run
    by (auto simp: length_greater_0_conv [symmetric] simp del: length_greater_0_conv)
  have b: "map t_canal (hourTransfers (first_hour parallel_manager)) = [0, 1, 2]"
    by code_simp
  obtain it where its:
    "h_iterations (runHour_d (buildCanalMap (canals parallel_manager)) parallel_manager) = [it]"
    and it: "map t_canal (it_transfers it) = [0, 1, 2]"
    using parallel_run_d by auto
  show ?thesis
    using canal_once_per_hour [of "\<lambda>m'. False" parallel_manager "canals parallel_manager"
        parallel_manager] a b
    by (simp add: its it)
qed

text \<open>The state of an hour after the first two passes through the body of the loop.\<close>

definition twoPasses_d :: "(nat \<Rightarrow> nat \<Rightarrow> nat list) \<Rightarrow> AcequiaManager \<Rightarrow> Hour" where
  "twoPasses_d cm m =
     (let h1 = hourBody_d cm (hourDonors_d (hourStart m))
                 \<lparr>h_needs = hourNeeds_d (hourStart m), h_manager = hourStart m,
                  h_didTransfer = False, h_loops = 0 + 1, h_iterations = []\<rparr>
      in hourBody_d cm (hourDonors_d (hourStart m)) (h1\<lparr>h_loops := h_loops h1 + 1\<rparr>))"

lemma runHour_d_twoPasses:
  assumes "hourNeeds_d (hourStart m) \<noteq> []" and "hourDonors_d (hourStart m) \<noteq> []"
    and "h_needs (hourBody_d cm (hourDonors_d (hourStart m))
                 \<lparr>h_needs = hourNeeds_d (hourStart m), h_manager = hourStart m,
                  h_didTransfer = False, h_loops = 0 + 1, h_iterations = []\<rparr>) \<noteq> []"
  shows "runHour_d cm m = hourLoop_d cm (hourDonors_d (hourStart m)) (twoPasses_d cm m)"
  unfolding runHour_d_def Let_def twoPasses_d_def
  using assms by (subst hourLoop_d.simps, simp add: kMaxLoops_def, subst hourLoop_d.simps)
    (simp add: kMaxLoops_def)

text \<open>A donor whose buffer is not a binary64 number.\<close>

definition rounding_manager :: AcequiaManager where
  "rounding_manager =
     \<lparr>regions = [\<lparr>waterLevel = 20000000000000000, waterNeed = 0, waterCapacity = 40000000000000032\<rparr>,
                 \<lparr>waterLevel = 0, waterNeed = 100000000000000000, waterCapacity = 100000000000000000\<rparr>],
      canals = [\<lparr>sourceRegion = 0, destinationRegion = 1, waterSource = Some 0,
                 isOpen = False, flowRate = 0\<rparr>],
      sources = (\<lambda>w. \<lparr>ws_waterLevel = 100000000000000000\<rparr>),
      hour = 0, SimulationMax = 24\<rparr>"

lemma rounding_start:
  "hourNeeds_d (hourStart rounding_manager) \<noteq> []"
  "hourDonors_d (hourStart rounding_manager) \<noteq> []"
  "h_needs (hourBody_d (buildCanalMap (canals rounding_manager)) (hourDonors_d (hourStart rounding_manager))
     \<lparr>h_needs = hourNeeds_d (hourStart rounding_manager), h_manager = hourStart rounding_manager,
      h_didTransfer = False, h_loops = 0 + 1, h_iterations = []\<rparr>) \<noteq> []"
  by code_simp+

lemma rounding_twoPasses:
  "map (\<lambda>tr. (t_canal tr, t_amount tr))
     (hourTransfers (twoPasses_d (buildCanalMap (canals rounding_manager)) rounding_manager)) =
   [(0, 15999999999999996), (0, 1 / 2)]"
  by code_simp

text \<open>
  In binary64 arithmetic the claim does not hold for a whole hour. The donor (level 2e16,
  need 0, capacity 40000000000000032) has the buffer 4000000000000003.5 and the safe
  surplus 15999999999999996, both rounded; the first pass moves the surplus and leaves
  the donor at 4000000000000004, where the safe surplus is 0.5 and not 0. The need is
  re-queued, and the second pass moves 0.5 along the same canal.
\<close>

theorem canal_twice_with_rounding:
  "take 2 (map (\<lambda>tr. (t_canal tr, t_amount tr)) (hourTransfers
     (runHour_d (buildCanalMap (canals rounding_manager)) rounding_manager))) =
     [(0, 15999999999999996), (0, 1 / 2)] \<and>
   \<not> distinct (map t_canal (hourTransfers
     (runHour_d (buildCanalMap (canals rounding_manager)) rounding_manager)))"
proof -
  let ?cm = "buildCanalMap (canals rounding_manager)"
  let ?two = "twoPasses_d ?cm rounding_manager"
  have "runHour_d ?cm rounding_manager =
      hourLoop_d ?cm (hourDonors_d (hourStart rounding_manager)) ?two"
    using rounding_start by (rule runHour_d_twoPasses)
  then obtain more where
    log: "hourTransfers (runHour_d ?cm rounding_manager) = hourTransfers ?two @ more"
    using hourLoop_d_transfers by metis
  obtain a b where two: "hourTransfers ?two = [a, b]"
    and ab: "t_canal a = 0" "t_amount a = 15999999999999996" "t_canal b = 0" "t_amount b = 1 / 2"
    using rounding_twoPasses by auto
  show ?thesis by (simp add: log two ab)
qed

section \<open>Regions stay within capacity\<close>

text \<open>The upper half of the bound of claim C1 does hold: the headroom of the target is
  read again for every canal (line 109), so no transfer lifts a region above its
  capacity.\<close>

lemma executeTransfer_other:
  "i \<noteq> src \<Longrightarrow> i \<noteq> target \<Longrightarrow> regions (executeTransfer c w src target x m) ! i = regions m ! i"
  by (simp add: executeTransfer_def Let_def)

lemma regions_within_capacity:
  assumes start: "\<forall>i<length (regions m). waterLevel (regions m ! i) \<le> waterCapacity (regions m ! i)"
    and h: "h \<in> set (r_hours (solveProblems solved m))" and tr: "tr \<in> set (hourTransfers h)"
    and i: "i < length (regions m)"
  shows "waterLevel (regions (t_after tr) ! i) \<le> waterCapacity (regions (t_after tr) ! i)"
proof -
  let ?I = "\<lambda>m'. static m m' \<and>
    (\<forall>i<length (regions m). waterLevel (regions m' ! i) \<le> waterCapacity (regions m' ! i))"
  have "?I (r_manager (solveProblems solved m)) \<and>
      (\<forall>h\<in>set (r_hours (solveProblems solved m)). \<forall>tr\<in>set (hourTransfers h). ?I (t_after tr))"
  proof (rule solveProblems_rule)
    show "?I m" using start by simp
    show "?I (hourStart m')" if "?I m'" for m'
      using that static_hourStart static_trans by (metis regions_hourStart)
    show "?I (nexthour m')" if "?I m'" for m'
      using that static_nexthour [of m'] static_trans by (auto simp: nexthour_def)
    fix tr
    assume I: "?I (t_before tr)" and v: "valid_transfer tr"
      and ne: "t_donor tr \<noteq> t_target tr"
      and d: "t_donor tr < length (regions (t_before tr))"
      and t: "t_target tr < length (regions (t_before tr))"
    let ?b = "t_before tr"
    have after: "t_after tr = executeTransfer (t_canal tr) (t_source tr) (t_donor tr) (t_target tr)
        (t_amount tr) ?b"
      and x: "canalXfer ?b (t_target tr) (t_deficit tr) (t_avail tr) (t_canal tr) =
        Some (t_source tr, t_amount tr)"
      using v by (simp_all add: valid_transfer_def)
    have st: "static ?b (t_after tr)"
      unfolding after using frame_static [OF frame_executeTransfer] .
    have len: "length (regions ?b) = length (regions m)"
      using I static_length(1) by blast
    have pos: "0 \<le> t_amount tr" using canalXfer_SomeD(4) [OF x] kEpsilon_pos by simp
    have room: "t_amount tr \<le> waterCapacity (regions ?b ! t_target tr) - waterLevel (regions ?b ! t_target tr)"
      using canalXfer_SomeD(3) [OF x] by simp
    note lv = executeTransfer_levels [OF ne d t, of "t_canal tr" "t_source tr" "t_amount tr"]
    have "waterLevel (regions (t_after tr) ! j) \<le> waterCapacity (regions (t_after tr) ! j)"
      if j: "j < length (regions m)" for j
    proof -
      have cap: "waterCapacity (regions (t_after tr) ! j) = waterCapacity (regions ?b ! j)"
        using static_nth(2) [OF st] j len by simp
      have before: "waterLevel (regions ?b ! j) \<le> waterCapacity (regions ?b ! j)"
        using I j by simp
      consider "j = t_target tr" | "j = t_donor tr" | "j \<noteq> t_target tr" "j \<noteq> t_donor tr" by blast
      then show ?thesis
      proof cases
        case 1
        then show ?thesis using lv(2) room cap unfolding after by simp
      next
        case 2
        then show ?thesis using lv(1) pos before cap unfolding after by simp
      next
        case 3
        then show ?thesis
          using before cap executeTransfer_other [of j "t_donor tr" "t_target tr"]
          unfolding after by simp
      qed
    qed
    moreover have "static m (t_after tr)" using I st static_trans by blast
    ultimately show "?I (t_after tr) \<and> ?I (t_after tr)" by simp
  qed
  then show ?thesis using h tr i by blast
qed

end
